theory Spec2Isabelle
  imports
    Main
    "HOL-Library.Word"
    "HOL-Library.List_Lexorder"
    "HOL-Library.Multiset"
begin

section \<open>Strings of the source language\<close>

text \<open>
  A TypeScript string is a sequence of 16-bit code units; \<open>length\<close>, \<open>slice\<close>,
  \<open>split\<close>, regular expressions without the \<open>u\<close> flag and the default \<open>sort\<close>
  all work on code units. The bullet (U+2022) and the ellipsis (U+2026) that
  \<open>cleanSnippet\<close> writes are one code unit each.
\<close>

type_synonym cu = "16 word"
type_synonym jsstring = "cu list"

text \<open>ASCII literals of the source, written as Isabelle strings.\<close>

definition str :: "string \<Rightarrow> jsstring" where
  "str s = map of_char s"

definition LT :: cu where "LT = 0x3C"
definition GT :: cu where "GT = 0x3E"
definition AMP :: cu where "AMP = 0x26"
definition SLASH :: cu where "SLASH = 0x2F"
definition SP :: cu where "SP = 0x20"
definition BULLET :: cu where "BULLET = 0x2022"
definition ELLIPSIS :: cu where "ELLIPSIS = 0x2026"

text \<open>
  The code units matched by \<open>\s\<close> in a regular expression and removed by
  \<open>String.prototype.trim\<close> (ECMAScript WhiteSpace and LineTerminator).
\<close>

definition isWhiteSpace :: "cu \<Rightarrow> bool" where
  "isWhiteSpace c \<longleftrightarrow>
     c = 0x09 \<or> c = 0x0A \<or> c = 0x0B \<or> c = 0x0C \<or> c = 0x0D \<or> c = 0x20 \<or>
     c = 0xA0 \<or> c = 0x1680 \<or> (0x2000 \<le> c \<and> c \<le> 0x200A) \<or>
     c = 0x2028 \<or> c = 0x2029 \<or> c = 0x202F \<or> c = 0x205F \<or> c = 0x3000 \<or>
     c = 0xFEFF"

text \<open>\<open>s.trim()\<close>\<close>

definition trim :: "jsstring \<Rightarrow> jsstring" where
  "trim s = rev (dropWhile isWhiteSpace (rev (dropWhile isWhiteSpace s)))"

text \<open>\<open>s.startsWith(p)\<close>, the test behind \<open>split\<close> and \<open>includes\<close>.\<close>

fun startsWith :: "jsstring \<Rightarrow> jsstring \<Rightarrow> bool" where
  "startsWith s [] = True"
| "startsWith [] (p # ps) = False"
| "startsWith (c # cs) (p # ps) = (c = p \<and> startsWith cs ps)"

text \<open>\<open>s.includes(needle)\<close>\<close>

fun includesStr :: "jsstring \<Rightarrow> jsstring \<Rightarrow> bool" where
  "includesStr [] needle = (needle = [])"
| "includesStr (c # cs) needle = (startsWith (c # cs) needle \<or> includesStr cs needle)"

text \<open>
  \<open>s.split(sep)\<close>: the pieces between the occurrences of \<open>sep\<close>, found from left
  to right without overlap. An empty separator splits into single code units.
\<close>

function split :: "jsstring \<Rightarrow> jsstring \<Rightarrow> jsstring list" where
  "split [] sep = (if sep = [] then [] else [[]])"
| "split (c # cs) sep =
     (if sep = [] then map (\<lambda>x. [x]) (c # cs)
      else if startsWith (c # cs) sep
        then [] # split (drop (length sep) (c # cs)) sep
      else (case split cs sep of
              [] \<Rightarrow> [[c]]
            | p # ps \<Rightarrow> (c # p) # ps))"
  by pat_completeness auto
termination
  by (relation "measure (\<lambda>(s, sep). length s)") auto

text \<open>\<open>parts.join(v)\<close>\<close>

fun join :: "jsstring list \<Rightarrow> jsstring \<Rightarrow> jsstring" where
  "join [] v = []"
| "join [p] v = p"
| "join (p # q # ps) v = p @ v @ join (q # ps) v"

section \<open>The regular expressions of \<open>cleanSnippet\<close>\<close>

text \<open>
  Every regular expression in the source is a sequence of single-code-unit atoms,
  each taken once or under \<open>?\<close>, \<open>*\<close> or \<open>+\<close>. \<open>matchAt\<close> is the backtracking
  matcher for that fragment: quantifiers are greedy and give back code units when
  the rest of the pattern fails. It returns the number of code units the match at
  the start of the string consumes.
\<close>

datatype quant = One | Opt | Star | Plus

type_synonym atom = "(cu \<Rightarrow> bool) \<times> quant"

fun matchAt :: "atom list \<Rightarrow> jsstring \<Rightarrow> nat option" where
  "matchAt [] s = Some 0"
| "matchAt ((p, One) # r) [] = None"
| "matchAt ((p, One) # r) (c # cs) =
     (if p c then map_option Suc (matchAt r cs) else None)"
| "matchAt ((p, Opt) # r) [] = matchAt r []"
| "matchAt ((p, Opt) # r) (c # cs) =
     (if p c
      then (case matchAt r cs of
              Some n \<Rightarrow> Some (Suc n)
            | None \<Rightarrow> matchAt r (c # cs))
      else matchAt r (c # cs))"
| "matchAt ((p, Star) # r) [] = matchAt r []"
| "matchAt ((p, Star) # r) (c # cs) =
     (if p c
      then (case matchAt ((p, Star) # r) cs of
              Some n \<Rightarrow> Some (Suc n)
            | None \<Rightarrow> matchAt r (c # cs))
      else matchAt r (c # cs))"
| "matchAt ((p, Plus) # r) [] = None"
| "matchAt ((p, Plus) # r) (c # cs) =
     (if p c then map_option Suc (matchAt ((p, Star) # r) cs) else None)"

text \<open>
  \<open>s.replace(re, rep)\<close> for a regular expression with the \<open>g\<close> flag: scan from
  the left, replace each match and continue after it; an empty match inserts the
  replacement and moves on by one code unit.
\<close>

function replaceG :: "jsstring \<Rightarrow> atom list \<Rightarrow> jsstring \<Rightarrow> jsstring" where
  "replaceG [] re rep = (case matchAt re [] of Some n \<Rightarrow> rep | None \<Rightarrow> [])"
| "replaceG (c # cs) re rep =
     (case matchAt re (c # cs) of
        None \<Rightarrow> c # replaceG cs re rep
      | Some 0 \<Rightarrow> rep @ c # replaceG cs re rep
      | Some (Suc n) \<Rightarrow> rep @ replaceG (drop n cs) re rep)"
  by pat_completeness auto
termination
  by (relation "measure (\<lambda>(s, re, rep). length s)") auto

text \<open>Atoms: a literal code unit, a letter under the \<open>i\<close> flag, \<open>\s\<close>, \<open>[^>]\<close>.\<close>

definition lit :: "cu \<Rightarrow> cu \<Rightarrow> bool" where
  "lit a c \<longleftrightarrow> c = a"

text \<open>
  Under the \<open>i\<close> flag (without \<open>u\<close>) an ASCII letter matches its two cases only:
  a code unit outside ASCII is never folded onto an ASCII one.
\<close>

definition ci :: "cu \<Rightarrow> cu \<Rightarrow> bool" where
  "ci lower c \<longleftrightarrow> c = lower \<or> c = lower - 0x20"

definition notGT :: "cu \<Rightarrow> bool" where
  "notGT c \<longleftrightarrow> c \<noteq> GT"

text \<open>\<open>/<br\s*\/?>/gi\<close>\<close>
definition re_br :: "atom list" where
  "re_br = [(lit LT, One), (ci 0x62, One), (ci 0x72, One), (isWhiteSpace, Star),
            (lit SLASH, Opt), (lit GT, One)]"

text \<open>\<open>/<\/?li>/gi\<close>\<close>
definition re_li :: "atom list" where
  "re_li = [(lit LT, One), (lit SLASH, Opt), (ci 0x6C, One), (ci 0x69, One), (lit GT, One)]"

text \<open>\<open>/<\/?strong>/gi\<close>\<close>
definition re_strong :: "atom list" where
  "re_strong = [(lit LT, One), (lit SLASH, Opt), (ci 0x73, One), (ci 0x74, One),
                (ci 0x72, One), (ci 0x6F, One), (ci 0x6E, One), (ci 0x67, One),
                (lit GT, One)]"

text \<open>\<open>/<\/?em>/gi\<close>\<close>
definition re_em :: "atom list" where
  "re_em = [(lit LT, One), (lit SLASH, Opt), (ci 0x65, One), (ci 0x6D, One), (lit GT, One)]"

text \<open>\<open>/<\/?p>/gi\<close>\<close>
definition re_p :: "atom list" where
  "re_p = [(lit LT, One), (lit SLASH, Opt), (ci 0x70, One), (lit GT, One)]"

text \<open>\<open>/<\/?ul>/gi\<close>\<close>
definition re_ul :: "atom list" where
  "re_ul = [(lit LT, One), (lit SLASH, Opt), (ci 0x75, One), (ci 0x6C, One), (lit GT, One)]"

text \<open>\<open>/<\/?[^>]+>/g\<close>\<close>
definition re_tag :: "atom list" where
  "re_tag = [(lit LT, One), (lit SLASH, Opt), (notGT, Plus), (lit GT, One)]"

text \<open>\<open>/\s+/g\<close>\<close>
definition re_ws :: "atom list" where
  "re_ws = [(isWhiteSpace, Plus)]"

section \<open>\<open>cleanSnippet\<close> (src/lib/jobs.ts)\<close>

text \<open>\<open>Object.entries(HTML_ENTITIES)\<close>, in insertion order.\<close>

definition HTML_ENTITIES :: "(jsstring \<times> jsstring) list" where
  "HTML_ENTITIES =
     [(str ''&nbsp;'', [SP]),
      (str ''&amp;'', [AMP]),
      (str ''&lt;'', [LT]),
      (str ''&gt;'', [GT]),
      (str ''&quot;'', [0x22]),
      (str ''&#39;'', [0x27])]"

text \<open>Lines 43 to 45: the loop over the entity table.\<close>

definition decodeEntities :: "jsstring \<Rightarrow> jsstring" where
  "decodeEntities s =
     foldl (\<lambda>result (entity, value). join (split result entity) value) s HTML_ENTITIES"

text \<open>Lines 46 to 52: the seven tag rules, in the order of the source.\<close>

definition stripMarkup :: "jsstring \<Rightarrow> jsstring" where
  "stripMarkup s =
     (let result = replaceG s re_br [SP];
          result = replaceG result re_li [SP, BULLET, SP];
          result = replaceG result re_strong [];
          result = replaceG result re_em [];
          result = replaceG result re_p [SP];
          result = replaceG result re_ul [SP];
          result = replaceG result re_tag [SP]
      in result)"

text \<open>Line 53: collapse whitespace and trim.\<close>

definition collapse :: "jsstring \<Rightarrow> jsstring" where
  "collapse s = trim (replaceG s re_ws [SP])"

text \<open>
  The value of \<open>result\<close> after line 53, for a non-empty snippet: what lines 54 and
  55 test and truncate.
\<close>

definition collapsedText :: "jsstring \<Rightarrow> jsstring" where
  "collapsedText s = collapse (stripMarkup (decodeEntities s))"

text \<open>
  \<open>cleanSnippet\<close>: \<open>None\<close> is \<open>undefined\<close>. \<open>!snippet\<close> holds for \<open>undefined\<close> and
  for the empty string.
\<close>

definition cleanSnippet :: "jsstring option \<Rightarrow> jsstring option" where
  "cleanSnippet snippet =
     (case snippet of
        None \<Rightarrow> None
      | Some s \<Rightarrow>
          if s = [] then None
          else (let result = collapsedText s
                in if result = [] then None
                   else if length result > 220
                     then Some (trim (take 217 result) @ [ELLIPSIS])
                   else Some result))"

section \<open>Jobs (src/lib/jobs.ts)\<close>

datatype VisaStatus = Mentioned | NotMentioned

record RawJob =
  title :: jsstring
  company :: jsstring
  country :: jsstring
  location :: jsstring
  visa_status :: VisaStatus
  visa_snippet :: "jsstring option"
  job_type :: jsstring
  reason :: jsstring
  link :: jsstring
  source :: jsstring

record Job =
  title :: jsstring
  company :: jsstring
  country :: jsstring
  location :: jsstring
  visaStatus :: VisaStatus
  visaSnippet :: "jsstring option"
  jobType :: jsstring
  reason :: jsstring
  link :: jsstring
  source :: jsstring

text \<open>The callback of \<open>rawJobs.map\<close> (lines 60 to 71).\<close>

definition toJob :: "RawJob \<Rightarrow> Job" where
  "toJob job =
     \<lparr> Job.title = RawJob.title job,
       company = RawJob.company job,
       country = RawJob.country job,
       location = RawJob.location job,
       visaStatus = visa_status job,
       visaSnippet = cleanSnippet (visa_snippet job),
       jobType = job_type job,
       reason = RawJob.reason job,
       link = RawJob.link job,
       source = RawJob.source job \<rparr>"

text \<open>
  The comparator passed to \<open>sort\<close> (lines 73 to 81). \<open>String.prototype.localeCompare\<close>
  belongs to the runtime, not to the repository: it is the parameter
  \<open>localeCompare\<close>, a function to the integers of which only the sign is used.
\<close>

definition compareJobs :: "(jsstring \<Rightarrow> jsstring \<Rightarrow> int) \<Rightarrow> Job \<Rightarrow> Job \<Rightarrow> int" where
  "compareJobs localeCompare a b =
     (if visaStatus a \<noteq> visaStatus b
        then (if visaStatus a = Mentioned then - 1 else 1)
      else if country a \<noteq> country b
        then localeCompare (country a) (country b)
      else localeCompare (company a) (company b))"

text \<open>
  \<open>Array.prototype.sort(cmp)\<close> is a stable sort (ECMAScript 2019): for a
  consistent comparator its result is the one of insertion from the right, where
  an element goes before the first element it does not exceed.
\<close>

fun insertBy :: "('a \<Rightarrow> 'a \<Rightarrow> int) \<Rightarrow> 'a \<Rightarrow> 'a list \<Rightarrow> 'a list" where
  "insertBy cmp x [] = [x]"
| "insertBy cmp x (y # ys) =
     (if cmp x y \<le> 0 then x # y # ys else y # insertBy cmp x ys)"

definition sortBy :: "('a \<Rightarrow> 'a \<Rightarrow> int) \<Rightarrow> 'a list \<Rightarrow> 'a list" where
  "sortBy cmp xs = foldr (insertBy cmp) xs []"

text \<open>
  \<open>getJobs\<close>: the imported \<open>jobsData\<close> (src/data/jobs.json) is the parameter
  \<open>rawJobs\<close>.
\<close>

definition getJobs :: "(jsstring \<Rightarrow> jsstring \<Rightarrow> int) \<Rightarrow> RawJob list \<Rightarrow> Job list" where
  "getJobs localeCompare rawJobs =
     (let mapped = map toJob rawJobs
      in sortBy (compareJobs localeCompare) mapped)"

text \<open>
  \<open>Array.from(new Set(xs))\<close>: a \<open>Set\<close> keeps its values in insertion order and
  ignores a value it already holds.
\<close>

definition setValues :: "'a list \<Rightarrow> 'a list" where
  "setValues xs = foldl (\<lambda>acc x. if x \<in> set acc then acc else acc @ [x]) [] xs"

record JobStats =
  total :: int
  visaMentioned :: int
  visaNotMentioned :: int
  countries :: "jsstring list"
  jobTypes :: "jsstring list"

text \<open>
  \<open>getJobStats\<close> (lines 84 to 97). \<open>sort()\<close> without a comparator orders strings
  by their code units, which is the lexicographic order of \<open>jsstring\<close>.
\<close>

definition getJobStats :: "Job list \<Rightarrow> JobStats" where
  "getJobStats jobs =
     (let visaMentioned = int (length (filter (\<lambda>job. visaStatus job = Mentioned) jobs));
          visaNotMentioned = int (length jobs) - visaMentioned;
          countries = sort (setValues (map country jobs));
          jobTypes = sort (setValues (map jobType jobs))
      in \<lparr> total = int (length jobs),
           visaMentioned = visaMentioned,
           visaNotMentioned = visaNotMentioned,
           countries = countries,
           jobTypes = jobTypes \<rparr>)"

section \<open>The filter of the job explorer (src/components/JobExplorer.tsx)\<close>

text \<open>The state \<open>visaStatus\<close> has type \<open>VisaStatus | "All"\<close>.\<close>

datatype VisaSelection = AllStatuses | Status VisaStatus

text \<open>
  The callback of \<open>jobs.filter\<close> (lines 34 to 43), with its early returns.
  \<open>String.prototype.toLowerCase\<close> belongs to the runtime: it is the parameter
  \<open>toLowerCase\<close>.
\<close>

definition keepJob ::
  "(jsstring \<Rightarrow> jsstring) \<Rightarrow> jsstring \<Rightarrow> jsstring \<Rightarrow> VisaSelection \<Rightarrow> jsstring \<Rightarrow> Job \<Rightarrow> bool"
where
  "keepJob toLowerCase countrySel jobTypeSel visaSel searchTerm job =
     (if countrySel \<noteq> str ''All'' \<and> country job \<noteq> countrySel then False
      else if jobTypeSel \<noteq> str ''All'' \<and> jobType job \<noteq> jobTypeSel then False
      else if visaSel \<noteq> AllStatuses \<and> Status (visaStatus job) \<noteq> visaSel then False
      else if trim searchTerm \<noteq> []
        then (let haystack = toLowerCase (title job @ [SP] @ company job @ [SP] @ reason job)
              in if \<not> includesStr haystack (toLowerCase (trim searchTerm)) then False
                 else True)
      else True)"

definition filteredJobs ::
  "(jsstring \<Rightarrow> jsstring) \<Rightarrow> Job list \<Rightarrow> jsstring \<Rightarrow> jsstring \<Rightarrow> VisaSelection \<Rightarrow> jsstring \<Rightarrow> Job list"
where
  "filteredJobs toLowerCase jobs countrySel jobTypeSel visaSel searchTerm =
     filter (keepJob toLowerCase countrySel jobTypeSel visaSel searchTerm) jobs"

text \<open>Lines 46 and 47.\<close>

definition priorityJobs :: "Job list \<Rightarrow> Job list" where
  "priorityJobs visible = filter (\<lambda>job. visaStatus job = Mentioned) visible"

definition otherJobs :: "Job list \<Rightarrow> Job list" where
  "otherJobs visible = filter (\<lambda>job. visaStatus job \<noteq> Mentioned) visible"

section \<open>Notions of the specification\<close>

text \<open>
  A markup tag in the sense of rule 7 starts at the head of a string: a \<open><\<close>, then
  at least one code unit other than \<open>>\<close>, then a \<open>>\<close>.
\<close>

fun tagAt :: "jsstring \<Rightarrow> bool" where
  "tagAt (c # d # rest) = (c = LT \<and> d \<noteq> GT \<and> GT \<in> set rest)"
| "tagAt s = False"

fun hasTag :: "jsstring \<Rightarrow> bool" where
  "hasTag [] = False"
| "hasTag (c # cs) = (tagAt (c # cs) \<or> hasTag cs)"

text \<open>
  Collapsed whitespace: every whitespace code unit is a space that is not followed
  by another whitespace code unit.
\<close>

fun collapsed :: "jsstring \<Rightarrow> bool" where
  "collapsed [] = True"
| "collapsed [c] = (isWhiteSpace c \<longrightarrow> c = SP)"
| "collapsed (c # d # rest) =
     ((isWhiteSpace c \<longrightarrow> c = SP \<and> \<not> isWhiteSpace d) \<and> collapsed (d # rest))"

text \<open>The entities of the table that occur in a string.\<close>

definition hasEntity :: "jsstring \<Rightarrow> bool" where
  "hasEntity s \<longleftrightarrow> (\<exists>e \<in> set HTML_ENTITIES. includesStr s (fst e))"

text \<open>
  The order of the specification on jobs: visa status by the fixed priority
  (\<open>Mentioned\<close> first), then country, then company, both compared by the locale
  comparison.
\<close>

definition visaPriority :: "VisaStatus \<Rightarrow> nat" where
  "visaPriority v = (case v of Mentioned \<Rightarrow> 0 | NotMentioned \<Rightarrow> 1)"

definition threeKeyLe :: "(jsstring \<Rightarrow> jsstring \<Rightarrow> int) \<Rightarrow> Job \<Rightarrow> Job \<Rightarrow> bool" where
  "threeKeyLe localeCompare a b \<longleftrightarrow>
     visaPriority (visaStatus a) < visaPriority (visaStatus b) \<or>
     (visaPriority (visaStatus a) = visaPriority (visaStatus b) \<and>
      (localeCompare (country a) (country b) < 0 \<or>
       (localeCompare (country a) (country b) = 0 \<and>
        localeCompare (company a) (company b) \<le> 0)))"

definition sameKeys :: "Job \<Rightarrow> Job \<Rightarrow> bool" where
  "sameKeys a b \<longleftrightarrow>
     visaStatus a = visaStatus b \<and> country a = country b \<and> company a = company b"

text \<open>
  What ECMAScript requires of a comparison function such as \<open>localeCompare\<close>: it
  is a consistent comparator, that is, its sign defines a total preorder.
\<close>

definition consistentComparator :: "('a \<Rightarrow> 'a \<Rightarrow> int) \<Rightarrow> bool" where
  "consistentComparator f \<longleftrightarrow>
     (\<forall>a. f a a = 0) \<and>
     (\<forall>a b. (f a b < 0) = (0 < f b a)) \<and>
     (\<forall>a b c. f a b \<le> 0 \<and> f b c \<le> 0 \<longrightarrow> f a c \<le> 0)"

text \<open>Two comparators to run \<open>getJobs\<close> with. The first orders by code units.\<close>

definition compareCodeUnits :: "jsstring \<Rightarrow> jsstring \<Rightarrow> int" where
  "compareCodeUnits a b = (if a < b then - 1 else if a = b then 0 else 1)"

text \<open>
  The second honours one canonical equivalence of Unicode, as ECMAScript requires
  \<open>localeCompare\<close> to do (it returns 0 on distinguishable strings that are
  canonically equivalent): U+212B ANGSTROM SIGN is canonically equivalent to
  U+00C5 LATIN CAPITAL LETTER A WITH RING ABOVE.
\<close>

definition foldAngstrom :: "cu \<Rightarrow> cu" where
  "foldAngstrom c = (if c = 0x212B then 0xC5 else c)"

definition compareCanonical :: "jsstring \<Rightarrow> jsstring \<Rightarrow> int" where
  "compareCanonical a b = compareCodeUnits (map foldAngstrom a) (map foldAngstrom b)"

text \<open>\<open>toLowerCase\<close> on strings of ASCII code units.\<close>

definition toLowerCaseASCII :: "jsstring \<Rightarrow> jsstring" where
  "toLowerCaseASCII s = map (\<lambda>c. if 0x41 \<le> c \<and> c \<le> 0x5A then c + 0x20 else c) s"

section \<open>Lemmas\<close>

subsection \<open>Code units\<close>

lemma cu_distinct [simp]:
  "LT \<noteq> GT" "GT \<noteq> LT" "SP \<noteq> LT" "SP \<noteq> GT" "SLASH \<noteq> GT" "ELLIPSIS \<noteq> GT"
  "ELLIPSIS \<noteq> LT" "BULLET \<noteq> GT" "BULLET \<noteq> LT" "AMP \<noteq> LT" "AMP \<noteq> GT"
  by (simp_all add: LT_def GT_def SP_def SLASH_def ELLIPSIS_def BULLET_def AMP_def)

lemma ws_facts [simp]:
  "isWhiteSpace SP" "\<not> isWhiteSpace LT" "\<not> isWhiteSpace GT" "\<not> isWhiteSpace ELLIPSIS"
  "\<not> isWhiteSpace AMP" "\<not> isWhiteSpace BULLET"
  by (simp_all add: isWhiteSpace_def LT_def GT_def SP_def ELLIPSIS_def AMP_def BULLET_def)

subsection \<open>Matching\<close>

lemma matchAt_last_GT:
  "pat \<noteq> [] \<Longrightarrow> last pat = (lit GT, One) \<Longrightarrow> matchAt pat s = Some n \<Longrightarrow> GT \<in> set s"
proof (induction pat s arbitrary: n rule: matchAt.induct)
  case (3 p r c cs)
  then show ?case by (cases "r = []") (auto simp: lit_def split: if_splits)
qed (auto split: if_splits option.splits)

lemma matchAt_ends_GT:
  "matchAt (pat @ [(lit GT, One)]) s = Some n \<Longrightarrow> GT \<in> set s"
  by (rule matchAt_last_GT [of "pat @ [(lit GT, One)]"]) simp_all

lemma matchAt_first_mandatory:
  assumes "matchAt ((p, q) # mid @ [(lit GT, One)]) s = Some n"
    and "q = One \<or> q = Plus" and "\<And>c. p c \<Longrightarrow> c \<noteq> GT"
  shows "\<exists>d rest. s = d # rest \<and> d \<noteq> GT \<and> GT \<in> set rest"
proof (cases s)
  case Nil
  with assms show ?thesis by auto
next
  case (Cons d rest)
  show ?thesis
  proof (cases "q = One")
    case True
    with assms Cons have "p d" and "\<exists>k. matchAt (mid @ [(lit GT, One)]) rest = Some k"
      by (auto split: if_splits)
    then show ?thesis using Cons assms(3) matchAt_ends_GT by blast
  next
    case False
    with assms have q: "q = Plus" by simp
    with assms Cons have "p d"
      and "\<exists>k. matchAt (((p, Star) # mid) @ [(lit GT, One)]) rest = Some k"
      by (auto split: if_splits)
    then show ?thesis using Cons assms(3) matchAt_ends_GT by blast
  qed
qed

lemma tag_shape_plain:
  assumes "matchAt ((lit LT, One) # (p, q) # mid @ [(lit GT, One)]) s = Some n"
    and "q = One \<or> q = Plus" and "\<And>c. p c \<Longrightarrow> c \<noteq> GT"
  shows "tagAt s"
proof (cases s)
  case Nil
  with assms show ?thesis by simp
next
  case (Cons c s1)
  with assms have c: "c = LT"
    and m: "\<exists>k. matchAt ((p, q) # mid @ [(lit GT, One)]) s1 = Some k"
    by (auto simp: lit_def split: if_splits)
  from m obtain k where "matchAt ((p, q) # mid @ [(lit GT, One)]) s1 = Some k" ..
  from matchAt_first_mandatory [OF this assms(2) assms(3)]
  show ?thesis using Cons c by auto
qed

lemma tag_shape_slash:
  assumes "matchAt ((lit LT, One) # (lit SLASH, Opt) # (p, q) # mid @ [(lit GT, One)]) s = Some n"
    and q: "q = One \<or> q = Plus" and p: "\<And>c. p c \<Longrightarrow> c \<noteq> GT"
  shows "tagAt s"
proof (cases s)
  case Nil
  with assms show ?thesis by simp
next
  case (Cons c s1)
  let ?R = "(p, q) # mid @ [(lit GT, One)]"
  from assms Cons have c: "c = LT"
    and m: "\<exists>k. matchAt ((lit SLASH, Opt) # ?R) s1 = Some k"
    by (auto simp: lit_def split: if_splits)
  then obtain k where k: "matchAt ((lit SLASH, Opt) # ?R) s1 = Some k" by blast
  show ?thesis
  proof (cases s1)
    case Nil
    with k q show ?thesis by auto
  next
    case (Cons d s2)
    have "(d = SLASH \<and> (\<exists>j. matchAt ?R s2 = Some j)) \<or> (\<exists>j. matchAt ?R (d # s2) = Some j)"
      using k Cons by (auto simp: lit_def split: if_splits option.splits)
    then show ?thesis
    proof
      assume a: "d = SLASH \<and> (\<exists>j. matchAt ?R s2 = Some j)"
      then obtain j where "matchAt (((p, q) # mid) @ [(lit GT, One)]) s2 = Some j" by auto
      then have "GT \<in> set s2" by (rule matchAt_ends_GT)
      with a c Cons \<open>s = c # s1\<close> show ?thesis by simp
    next
      assume "\<exists>j. matchAt ?R (d # s2) = Some j"
      then obtain j where "matchAt ?R (d # s2) = Some j" ..
      from matchAt_first_mandatory [OF this q p]
      show ?thesis using c Cons \<open>s = c # s1\<close> by auto
    qed
  qed
qed

lemma re_br_tagAt: "matchAt re_br s = Some n \<Longrightarrow> tagAt s"
proof -
  assume "matchAt re_br s = Some n"
  then have "matchAt ((lit LT, One) # (ci 0x62, One) # [(ci 0x72, One), (isWhiteSpace, Star), (lit SLASH, Opt)] @ [(lit GT, One)]) s = Some n"
    by (simp add: re_br_def)
  then show "tagAt s"
    by (rule tag_shape_plain) (auto simp: ci_def GT_def)
qed

lemma re_li_tagAt: "matchAt re_li s = Some n \<Longrightarrow> tagAt s"
proof -
  assume "matchAt re_li s = Some n"
  then have "matchAt ((lit LT, One) # (lit SLASH, Opt) # (ci 0x6C, One) # [(ci 0x69, One)] @ [(lit GT, One)]) s = Some n"
    by (simp add: re_li_def)
  then show "tagAt s"
    by (rule tag_shape_slash) (auto simp: ci_def GT_def)
qed

lemma re_strong_tagAt: "matchAt re_strong s = Some n \<Longrightarrow> tagAt s"
proof -
  assume "matchAt re_strong s = Some n"
  then have "matchAt ((lit LT, One) # (lit SLASH, Opt) # (ci 0x73, One) # [(ci 0x74, One), (ci 0x72, One), (ci 0x6F, One), (ci 0x6E, One), (ci 0x67, One)] @ [(lit GT, One)]) s = Some n"
    by (simp add: re_strong_def)
  then show "tagAt s"
    by (rule tag_shape_slash) (auto simp: ci_def GT_def)
qed

lemma re_em_tagAt: "matchAt re_em s = Some n \<Longrightarrow> tagAt s"
proof -
  assume "matchAt re_em s = Some n"
  then have "matchAt ((lit LT, One) # (lit SLASH, Opt) # (ci 0x65, One) # [(ci 0x6D, One)] @ [(lit GT, One)]) s = Some n"
    by (simp add: re_em_def)
  then show "tagAt s"
    by (rule tag_shape_slash) (auto simp: ci_def GT_def)
qed

lemma re_p_tagAt: "matchAt re_p s = Some n \<Longrightarrow> tagAt s"
proof -
  assume "matchAt re_p s = Some n"
  then have "matchAt ((lit LT, One) # (lit SLASH, Opt) # (ci 0x70, One) # [] @ [(lit GT, One)]) s = Some n"
    by (simp add: re_p_def)
  then show "tagAt s"
    by (rule tag_shape_slash) (auto simp: ci_def GT_def)
qed

lemma re_ul_tagAt: "matchAt re_ul s = Some n \<Longrightarrow> tagAt s"
proof -
  assume "matchAt re_ul s = Some n"
  then have "matchAt ((lit LT, One) # (lit SLASH, Opt) # (ci 0x75, One) # [(ci 0x6C, One)] @ [(lit GT, One)]) s = Some n"
    by (simp add: re_ul_def)
  then show "tagAt s"
    by (rule tag_shape_slash) (auto simp: ci_def GT_def)
qed

lemma re_tag_tagAt: "matchAt re_tag s = Some n \<Longrightarrow> tagAt s"
proof -
  assume "matchAt re_tag s = Some n"
  then have "matchAt ((lit LT, One) # (lit SLASH, Opt) # (notGT, Plus) # [] @ [(lit GT, One)]) s = Some n"
    by (simp add: re_tag_def)
  then show "tagAt s"
    by (rule tag_shape_slash) (auto simp: notGT_def)
qed

lemma star_notGT_finds:
  "GT \<in> set t \<Longrightarrow> \<exists>n. matchAt [(notGT, Star), (lit GT, One)] t = Some n"
  by (induction t) (auto simp: notGT_def lit_def)

lemma tagAt_re_tag: "tagAt s \<Longrightarrow> \<exists>n. matchAt re_tag s = Some n"
proof -
  assume a: "tagAt s"
  then obtain d rest where s: "s = LT # d # rest" and d: "d \<noteq> GT" and g: "GT \<in> set rest"
    by (cases s rule: tagAt.cases) auto
  from star_notGT_finds [OF g] obtain k where
    k: "matchAt [(notGT, Star), (lit GT, One)] rest = Some k" ..
  show ?thesis
    using s d k by (auto simp: re_tag_def lit_def notGT_def split: option.splits)
qed

subsection \<open>Replacement\<close>

lemma replaceG_noMatch:
  "(\<And>k. matchAt re (drop k s) = None) \<Longrightarrow> replaceG s re rep = s"
proof (induction s)
  case Nil
  from Nil [of 0] show ?case by simp
next
  case (Cons c cs)
  from Cons.prems [of 0] have h: "matchAt re (c # cs) = None" by simp
  have "\<And>k. matchAt re (drop k cs) = None"
    using Cons.prems [of "Suc k" for k] by simp
  then have "replaceG cs re rep = cs" by (rule Cons.IH)
  with h show ?case by simp
qed

lemma set_replaceG: "set (replaceG s re rep) \<subseteq> set s \<union> set rep"
proof (induction s re rep rule: replaceG.induct)
  case (1 re rep)
  then show ?case by (auto split: option.splits)
next
  case (2 c cs re rep)
  show ?case
  proof (cases "matchAt re (c # cs)")
    case None
    with 2 show ?thesis by auto
  next
    case (Some n)
    show ?thesis
    proof (cases n)
      case 0
      with Some 2 show ?thesis by auto
    next
      case (Suc m)
      with Some 2 have "set (replaceG (drop m cs) re rep) \<subseteq> set (drop m cs) \<union> set rep"
        by simp
      moreover have "set (drop m cs) \<subseteq> set cs" by (rule set_drop_subset)
      ultimately show ?thesis using Some Suc by auto
    qed
  qed
qed

subsection \<open>Tags\<close>

lemma tagAt_append: "tagAt t \<Longrightarrow> tagAt (t @ b)"
  by (cases t rule: tagAt.cases) auto

lemma hasTag_append_left: "hasTag a \<Longrightarrow> hasTag (a @ b)"
proof (induction a)
  case Nil
  then show ?case by simp
next
  case (Cons c a)
  then show ?case using tagAt_append [of "c # a" b] by auto
qed

lemma hasTag_append_right: "hasTag b \<Longrightarrow> hasTag (a @ b)"
  by (induction a) auto

lemma hasTag_drop: "\<not> hasTag s \<Longrightarrow> \<not> hasTag (drop k s)"
  using hasTag_append_right [of "drop k s" "take k s"] by auto

lemma hasTag_take: "\<not> hasTag s \<Longrightarrow> \<not> hasTag (take k s)"
  using hasTag_append_left [of "take k s" "drop k s"] by auto

lemma tagAt_hasTag: "tagAt s \<Longrightarrow> hasTag s"
  by (cases s) auto

lemma noTag_drop: "\<not> hasTag s \<Longrightarrow> \<not> tagAt (drop k s)"
  using hasTag_drop tagAt_hasTag by blast

lemma trim_decomp: "\<exists>a b. s = a @ trim s @ b"
proof -
  let ?t = "dropWhile isWhiteSpace s"
  have 1: "s = takeWhile isWhiteSpace s @ ?t" by simp
  have "rev (takeWhile isWhiteSpace (rev ?t) @ dropWhile isWhiteSpace (rev ?t)) = ?t"
    by (simp only: takeWhile_dropWhile_id rev_rev_ident)
  then have 2: "?t = trim s @ rev (takeWhile isWhiteSpace (rev ?t))"
    by (simp only: rev_append trim_def)
  from 1 2 have "s = takeWhile isWhiteSpace s @ trim s @ rev (takeWhile isWhiteSpace (rev ?t))"
    by simp
  then show ?thesis by blast
qed

lemma hasTag_trim: "\<not> hasTag s \<Longrightarrow> \<not> hasTag (trim s)"
proof -
  assume a: "\<not> hasTag s"
  obtain x y where s: "s = x @ trim s @ y" using trim_decomp by blast
  show ?thesis
  proof
    assume "hasTag (trim s)"
    then have "hasTag (trim s @ y)" by (rule hasTag_append_left)
    then have "hasTag (x @ trim s @ y)" by (rule hasTag_append_right)
    with s a show False by simp
  qed
qed

lemma hasTag_snoc: "\<not> hasTag s \<Longrightarrow> e \<noteq> GT \<Longrightarrow> \<not> hasTag (s @ [e])"
proof (induction s)
  case Nil
  then show ?case by simp
next
  case (Cons c cs)
  have "\<not> tagAt ((c # cs) @ [e])"
  proof (cases cs)
    case Nil
    then show ?thesis by simp
  next
    case (Cons d rest)
    with Cons.prems \<open>\<not> hasTag (c # cs)\<close> show ?thesis by auto
  qed
  with Cons show ?case by simp
qed

lemma noLT_noTag: "LT \<notin> set s \<Longrightarrow> \<not> hasTag s"
proof (induction s)
  case Nil
  then show ?case by simp
next
  case (Cons c cs)
  then show ?case by (cases cs) auto
qed

lemma hasTag_decomp:
  assumes "s = p @ [LT] @ m @ [GT] @ q" and "m \<noteq> []" and "GT \<notin> set m"
  shows "hasTag s"
proof -
  from assms(2) obtain d m' where m: "m = d # m'" by (cases m) auto
  with assms(3) have "tagAt (LT # d # m' @ GT # q)" by auto
  then have "hasTag ([LT] @ m @ [GT] @ q)" using m by simp
  then show ?thesis unfolding assms(1) by (rule hasTag_append_right)
qed

text \<open>Replacing by a space the matches of an expression that matches every tag.\<close>

lemma replaceG_SP_noTag:
  assumes "\<And>k. tagAt (drop k s) \<Longrightarrow> matchAt re (drop k s) \<noteq> None"
    and "\<And>t n. matchAt re t = Some n \<Longrightarrow> t \<noteq> [] \<and> hd t \<noteq> GT \<and> 0 < n"
  shows "\<not> hasTag (replaceG s re [SP])"
  using assms
proof (induction s re "[SP]" rule: replaceG.induct)
  case (1 re)
  then show ?case by (cases "matchAt re []") auto
next
  case (2 c cs re)
  have G: "\<And>t n. matchAt re t = Some n \<Longrightarrow> t \<noteq> [] \<and> hd t \<noteq> GT \<and> 0 < n"
    by (rule "2.prems"(2))
  show ?case
  proof (cases "matchAt re (c # cs)")
    case None
    have sub: "\<And>k. tagAt (drop k cs) \<Longrightarrow> matchAt re (drop k cs) \<noteq> None"
      using "2.prems"(1) [of "Suc k" for k] by simp
    have ih: "\<not> hasTag (replaceG cs re [SP])"
      using "2.hyps"(1) [OF None] sub G by blast
    have nt: "\<not> tagAt (c # cs)" using "2.prems"(1) [of 0] None by auto
    have "\<not> tagAt (c # replaceG cs re [SP])"
    proof (cases cs)
      case Nil
      have "matchAt re [] = None"
      proof (rule ccontr)
        assume "matchAt re [] \<noteq> None"
        then obtain j where "matchAt re [] = Some j" by auto
        from G [OF this] show False by simp
      qed
      with Nil show ?thesis by simp
    next
      case (Cons d rest)
      show ?thesis
      proof (cases "d = GT")
        case True
        have "matchAt re (d # rest) = None"
        proof (rule ccontr)
          assume "matchAt re (d # rest) \<noteq> None"
          then obtain j where "matchAt re (d # rest) = Some j" by auto
          from G [OF this] True show False by simp
        qed
        then show ?thesis using Cons True by simp
      next
        case False
        show ?thesis
        proof (cases "c = LT")
          case True
          with nt Cons False have "GT \<notin> set rest" by simp
          with False Cons have "GT \<notin> set cs" by auto
          moreover have "GT \<noteq> SP" by (simp add: GT_def SP_def)
          ultimately have g: "GT \<notin> set (replaceG cs re [SP])"
            using set_replaceG [of cs re "[SP]"] by auto
          show ?thesis
          proof (cases "replaceG cs re [SP]")
            case Nil
            then show ?thesis by simp
          next
            case (Cons x xs)
            with g show ?thesis by (cases xs) auto
          qed
        next
          case False
          then show ?thesis by (cases "replaceG cs re [SP]") auto
        qed
      qed
    qed
    with ih None show ?thesis by simp
  next
    case (Some n)
    with G [of "c # cs" n] obtain m where n: "n = Suc m" by (cases n) auto
    have sub: "\<And>k. tagAt (drop k (drop m cs)) \<Longrightarrow> matchAt re (drop k (drop m cs)) \<noteq> None"
      using "2.prems"(1) [of "Suc (k + m)" for k] by (simp add: add.commute)
    have ih: "\<not> hasTag (replaceG (drop m cs) re [SP])"
      using "2.hyps"(3) [OF Some n] sub G by blast
    have "\<not> tagAt (SP # replaceG (drop m cs) re [SP])"
      by (cases "replaceG (drop m cs) re [SP]") auto
    with ih Some n show ?thesis by simp
  qed
qed

lemma re_tag_head: "matchAt re_tag t = Some n \<Longrightarrow> t \<noteq> [] \<and> hd t \<noteq> GT \<and> 0 < n"
  by (cases t) (auto simp: re_tag_def lit_def split: if_splits)

lemma noTag_after_re_tag: "\<not> hasTag (replaceG s re_tag [SP])"
proof (rule replaceG_SP_noTag)
  fix k assume "tagAt (drop k s)"
  then show "matchAt re_tag (drop k s) \<noteq> None" using tagAt_re_tag by fastforce
next
  fix t n assume "matchAt re_tag t = Some n"
  then show "t \<noteq> [] \<and> hd t \<noteq> GT \<and> 0 < n" by (rule re_tag_head)
qed

lemma re_ws_head: "matchAt re_ws t = Some n \<Longrightarrow> t \<noteq> [] \<and> hd t \<noteq> GT \<and> 0 < n"
  by (cases t) (auto simp: re_ws_def split: if_splits)

lemma noTag_re_ws: "\<not> hasTag s \<Longrightarrow> \<not> hasTag (replaceG s re_ws [SP])"
proof (rule replaceG_SP_noTag)
  fix k assume "\<not> hasTag s" and "tagAt (drop k s)"
  then show "matchAt re_ws (drop k s) \<noteq> None" using noTag_drop by blast
next
  fix t n assume "matchAt re_ws t = Some n"
  then show "t \<noteq> [] \<and> hd t \<noteq> GT \<and> 0 < n" by (rule re_ws_head)
qed

lemma noTag_collapsedText: "\<not> hasTag (collapsedText s)"
proof -
  have "\<not> hasTag (stripMarkup (decodeEntities s))"
    by (simp add: stripMarkup_def Let_def noTag_after_re_tag)
  then show ?thesis
    by (simp add: collapsedText_def collapse_def noTag_re_ws hasTag_trim)
qed

lemma noTag_cleanSnippet: "cleanSnippet snippet = Some r \<Longrightarrow> \<not> hasTag r"
proof -
  assume a: "cleanSnippet snippet = Some r"
  then obtain s where s: "snippet = Some s" by (cases snippet) (auto simp: cleanSnippet_def)
  from a s have "r = trim (take 217 (collapsedText s)) @ [ELLIPSIS] \<or> r = collapsedText s"
    by (auto simp: cleanSnippet_def Let_def split: if_splits)
  then show ?thesis
    using noTag_collapsedText [of s]
    by (auto simp: hasTag_snoc hasTag_trim hasTag_take)
qed


subsection \<open>Length of the result\<close>

lemma length_trim_le: "length (trim s) \<le> length s"
proof -
  have "length (dropWhile isWhiteSpace (rev (dropWhile isWhiteSpace s)))
      \<le> length (rev (dropWhile isWhiteSpace s))"
    by (rule length_dropWhile_le)
  moreover have "length (dropWhile isWhiteSpace s) \<le> length s"
    by (rule length_dropWhile_le)
  ultimately show ?thesis by (simp add: trim_def)
qed

lemma cleanSnippet_cases:
  assumes "cleanSnippet snippet = Some r"
  obtains s where "snippet = Some s" and "s \<noteq> []" and "collapsedText s \<noteq> []"
    and "220 < length (collapsedText s)"
    and "r = trim (take 217 (collapsedText s)) @ [ELLIPSIS]"
  | s where "snippet = Some s" and "s \<noteq> []" and "collapsedText s \<noteq> []"
    and "length (collapsedText s) \<le> 220" and "r = collapsedText s"
proof (cases snippet)
  case None
  with assms show ?thesis by (simp add: cleanSnippet_def)
next
  case (Some s)
  with assms show ?thesis
    using that by (cases "220 < length (collapsedText s)")
      (auto simp: cleanSnippet_def Let_def split: if_splits)
qed

subsection \<open>Whitespace\<close>

lemma star_ws: "matchAt [(isWhiteSpace, Star)] t = Some (length (takeWhile isWhiteSpace t))"
  by (induction t) auto

lemma re_ws_Cons:
  "matchAt re_ws (c # cs) =
     (if isWhiteSpace c then Some (Suc (length (takeWhile isWhiteSpace cs))) else None)"
  by (simp add: re_ws_def star_ws)

lemma re_ws_Nil: "matchAt re_ws [] = None"
  by (simp add: re_ws_def)

lemma drop_takeWhile: "drop (length (takeWhile P xs)) xs = dropWhile P xs"
  by (induction xs) auto

lemma replaceG_ws_Cons:
  "replaceG (c # cs) re_ws [SP] =
     (if isWhiteSpace c then SP # replaceG (dropWhile isWhiteSpace cs) re_ws [SP]
      else c # replaceG cs re_ws [SP])"
  by (simp add: re_ws_Cons drop_takeWhile)

lemma replaceG_ws_Nil: "replaceG [] re_ws [SP] = []"
  by (simp add: re_ws_Nil)

declare replaceG.simps [simp del]

lemma collapsed_tl: "collapsed (c # cs) \<Longrightarrow> collapsed cs"
  by (cases cs) auto

lemma collapsed_Cons_other: "\<not> isWhiteSpace c \<Longrightarrow> collapsed (c # cs) = collapsed cs"
  by (cases cs) auto

lemma collapsed_SP_Cons:
  "collapsed (SP # cs) = ((cs \<noteq> [] \<longrightarrow> \<not> isWhiteSpace (hd cs)) \<and> collapsed cs)"
  by (cases cs) auto

lemma replaceG_ws_hd:
  "t \<noteq> [] \<Longrightarrow> \<not> isWhiteSpace (hd t) \<Longrightarrow>
     replaceG t re_ws [SP] \<noteq> [] \<and> hd (replaceG t re_ws [SP]) = hd t"
  by (cases t) (auto simp: replaceG_ws_Cons)

lemma replaceG_ws_empty: "replaceG t re_ws [SP] = [] \<Longrightarrow> t = []"
  by (cases t) (auto simp: replaceG_ws_Cons split: if_splits)

lemma collapsed_replaceG_ws: "collapsed (replaceG s re_ws [SP])"
proof (induction "length s" arbitrary: s rule: less_induct)
  case less
  show ?case
  proof (cases s)
    case Nil
    then show ?thesis by (simp add: replaceG_ws_Nil)
  next
    case (Cons c cs)
    show ?thesis
    proof (cases "isWhiteSpace c")
      case True
      let ?t = "dropWhile isWhiteSpace cs"
      have "length ?t < length s" using Cons length_dropWhile_le [of isWhiteSpace cs] by simp
      then have ih: "collapsed (replaceG ?t re_ws [SP])" by (rule less)
      have "replaceG ?t re_ws [SP] \<noteq> [] \<longrightarrow> \<not> isWhiteSpace (hd (replaceG ?t re_ws [SP]))"
      proof
        assume "replaceG ?t re_ws [SP] \<noteq> []"
        then have t: "?t \<noteq> []"
          by (cases "?t = []") (simp_all add: replaceG_ws_Nil)
        then have h: "\<not> isWhiteSpace (hd ?t)" by (rule hd_dropWhile)
        from replaceG_ws_hd [OF t h] h
        show "\<not> isWhiteSpace (hd (replaceG ?t re_ws [SP]))" by simp
      qed
      with ih True Cons show ?thesis by (simp add: replaceG_ws_Cons collapsed_SP_Cons)
    next
      case False
      have "collapsed (replaceG cs re_ws [SP])" using Cons by (intro less) simp
      with False Cons show ?thesis by (simp add: replaceG_ws_Cons collapsed_Cons_other)
    qed
  qed
qed

lemma replaceG_ws_collapsed: "collapsed s \<Longrightarrow> replaceG s re_ws [SP] = s"
proof (induction s)
  case Nil
  then show ?case by (simp add: replaceG_ws_Nil)
next
  case (Cons c cs)
  then have ih: "replaceG cs re_ws [SP] = cs" using collapsed_tl by blast
  show ?case
  proof (cases "isWhiteSpace c")
    case True
    with Cons.prems have "c = SP" and "dropWhile isWhiteSpace cs = cs"
      by (cases cs; auto)+
    with ih True show ?thesis by (simp add: replaceG_ws_Cons)
  next
    case False
    with ih show ?thesis by (simp add: replaceG_ws_Cons)
  qed
qed

lemma collapsed_append_left: "collapsed (a @ b) \<Longrightarrow> collapsed a"
proof (induction a rule: collapsed.induct)
  case 1
  then show ?case by simp
next
  case (2 c)
  then show ?case by (cases b) auto
next
  case (3 c d rest)
  then show ?case by auto
qed

lemma collapsed_append_right: "collapsed (a @ b) \<Longrightarrow> collapsed b"
  by (induction a) (auto dest: collapsed_tl)

lemma collapsed_trim: "collapsed s \<Longrightarrow> collapsed (trim s)"
proof -
  assume a: "collapsed s"
  obtain x y where "s = x @ trim s @ y" using trim_decomp by blast
  with a have "collapsed (x @ trim s @ y)" by simp
  then have "collapsed (trim s @ y)" by (rule collapsed_append_right)
  then show ?thesis by (rule collapsed_append_left)
qed

lemma collapsed_take: "collapsed s \<Longrightarrow> collapsed (take k s)"
  using collapsed_append_left [of "take k s" "drop k s"] by simp

lemma collapsed_snoc: "collapsed s \<Longrightarrow> \<not> isWhiteSpace e \<Longrightarrow> collapsed (s @ [e])"
  by (induction s rule: collapsed.induct) auto

lemma noWS_collapsed: "\<forall>c \<in> set s. \<not> isWhiteSpace c \<Longrightarrow> collapsed s"
  by (induction s rule: collapsed.induct) auto

lemma trim_id: "s \<noteq> [] \<Longrightarrow> \<not> isWhiteSpace (hd s) \<Longrightarrow> \<not> isWhiteSpace (last s) \<Longrightarrow> trim s = s"
proof -
  assume s: "s \<noteq> []" and h: "\<not> isWhiteSpace (hd s)" and l: "\<not> isWhiteSpace (last s)"
  from s h have 1: "dropWhile isWhiteSpace s = s" by (cases s) auto
  from s l have "\<not> isWhiteSpace (hd (rev s))" by (simp add: hd_rev)
  with s have 2: "dropWhile isWhiteSpace (rev s) = rev s" by (cases "rev s") auto
  from 1 2 show ?thesis by (simp add: trim_def)
qed

lemma trim_ends:
  assumes "trim s \<noteq> []"
  shows "\<not> isWhiteSpace (hd (trim s))" and "\<not> isWhiteSpace (last (trim s))"
proof -
  let ?t = "dropWhile isWhiteSpace s"
  let ?u = "dropWhile isWhiteSpace (rev ?t)"
  from assms have u: "?u \<noteq> []" by (simp add: trim_def)
  have t: "?t \<noteq> []" using u by (cases "?t = []") simp_all
  have "last (trim s) = hd ?u" using u by (simp add: trim_def last_rev)
  moreover have "\<not> isWhiteSpace (hd ?u)" using u by (rule hd_dropWhile)
  ultimately show "\<not> isWhiteSpace (last (trim s))" by simp
  have "hd (trim s) = last ?u" using u by (simp add: trim_def hd_rev)
  also have "last ?u = last (rev ?t)"
  proof -
    have "rev ?t = takeWhile isWhiteSpace (rev ?t) @ ?u" by simp
    then have "last (rev ?t) = last (takeWhile isWhiteSpace (rev ?t) @ ?u)" by simp
    also have "\<dots> = last ?u" using u by (rule last_appendR)
    finally show ?thesis by simp
  qed
  also have "\<dots> = hd ?t" using t by (simp add: last_rev)
  finally have "hd (trim s) = hd ?t" .
  moreover have "\<not> isWhiteSpace (hd ?t)" using t by (rule hd_dropWhile)
  ultimately show "\<not> isWhiteSpace (hd (trim s))" by simp
qed

lemma collapsed_collapse: "collapsed (collapse s)"
  by (simp add: collapse_def collapsed_trim collapsed_replaceG_ws)

lemma collapse_id:
  assumes "collapsed s" and "s \<noteq> []" and "\<not> isWhiteSpace (hd s)" and "\<not> isWhiteSpace (last s)"
  shows "collapse s = s"
  using assms by (simp add: collapse_def replaceG_ws_collapsed trim_id)

lemma collapse_ends:
  assumes "collapse s \<noteq> []"
  shows "\<not> isWhiteSpace (hd (collapse s))" and "\<not> isWhiteSpace (last (collapse s))"
  using assms trim_ends [of "replaceG s re_ws [SP]"] by (simp_all add: collapse_def)

subsection \<open>Literal replacement by \<open>split\<close> and \<open>join\<close>\<close>

lemma split_not_Nil: "sep \<noteq> [] \<Longrightarrow> split s sep \<noteq> []"
  by (induction s sep rule: split.induct) (auto split: list.splits)

lemma join_Cons_head: "join ((c # p) # ps) v = c # join (p # ps) v"
  by (cases ps) auto

lemma join_Nil_head: "ps \<noteq> [] \<Longrightarrow> join ([] # ps) v = v @ join ps v"
  by (cases ps) auto

lemma splitJoin_Nil: "sep \<noteq> [] \<Longrightarrow> join (split [] sep) v = []"
  by simp

lemma splitJoin_Cons:
  "sep \<noteq> [] \<Longrightarrow>
   join (split (c # cs) sep) v =
     (if startsWith (c # cs) sep
      then v @ join (split (drop (length sep) (c # cs)) sep) v
      else c # join (split cs sep) v)"
proof -
  assume sep: "sep \<noteq> []"
  show ?thesis
  proof (cases "startsWith (c # cs) sep")
    case True
    with sep show ?thesis
      using split_not_Nil [OF sep, of "drop (length sep) (c # cs)"]
      by (simp add: join_Nil_head del: split.simps(2) add: split.simps(2) [of c cs sep])
  next
    case False
    obtain p ps where "split cs sep = p # ps"
      using split_not_Nil [OF sep, of cs] by (cases "split cs sep") auto
    with sep False show ?thesis by (simp add: join_Cons_head)
  qed
qed

lemma notin_not_startsWith: "a \<notin> set s \<Longrightarrow> \<not> startsWith s (a # p)"
  by (cases s) auto

lemma notin_not_includes: "a \<notin> set s \<Longrightarrow> \<not> includesStr s (a # p)"
  by (induction s) auto

lemma splitJoin_id: "sep \<noteq> [] \<Longrightarrow> \<not> includesStr s sep \<Longrightarrow> join (split s sep) v = s"
proof (induction s)
  case Nil
  then show ?case by simp
next
  case (Cons c cs)
  then show ?case by (simp add: splitJoin_Cons del: split.simps)
qed

lemma splitJoin_skip:
  "a \<notin> set u \<Longrightarrow> join (split (u @ w) (a # p)) v = u @ join (split w (a # p)) v"
proof (induction u)
  case Nil
  then show ?case by simp
next
  case (Cons c u)
  then show ?case by (auto simp: splitJoin_Cons simp del: split.simps)
qed

lemma splitJoin_none: "a \<notin> set s \<Longrightarrow> join (split s (a # p)) v = s"
  by (rule splitJoin_id) (simp_all add: notin_not_includes)

lemma decodeEntities_id: "\<not> hasEntity s \<Longrightarrow> decodeEntities s = s"
  by (simp add: hasEntity_def decodeEntities_def HTML_ENTITIES_def splitJoin_id str_def
      del: split.simps)

lemma noAMP_noEntity: "AMP \<notin> set s \<Longrightarrow> \<not> hasEntity s"
  by (simp add: hasEntity_def HTML_ENTITIES_def str_def AMP_def notin_not_includes)

lemma decodeEntities_encoded_tag:
  assumes "AMP \<notin> set u" and "AMP \<notin> set t" and "AMP \<notin> set v"
  shows "decodeEntities (u @ str ''&lt;'' @ t @ str ''&gt;'' @ v) = u @ [LT] @ t @ [GT] @ v"
  using assms
  by (simp add: decodeEntities_def HTML_ENTITIES_def str_def AMP_def LT_def GT_def SP_def
      splitJoin_skip splitJoin_none splitJoin_Cons del: split.simps)

subsection \<open>The tag rules on text without tags\<close>

lemma replaceG_noTag_id:
  assumes "\<And>t n. matchAt re t = Some n \<Longrightarrow> tagAt t" and "\<not> hasTag s"
  shows "replaceG s re rep = s"
proof (rule replaceG_noMatch)
  fix k
  show "matchAt re (drop k s) = None"
  proof (rule ccontr)
    assume "matchAt re (drop k s) \<noteq> None"
    then obtain n where "matchAt re (drop k s) = Some n" by auto
    then have "tagAt (drop k s)" by (rule assms(1))
    with noTag_drop [OF assms(2)] show False by simp
  qed
qed

lemma stripMarkup_id: "\<not> hasTag s \<Longrightarrow> stripMarkup s = s"
  by (simp add: stripMarkup_def Let_def
      replaceG_noTag_id [OF re_br_tagAt] replaceG_noTag_id [OF re_li_tagAt]
      replaceG_noTag_id [OF re_strong_tagAt] replaceG_noTag_id [OF re_em_tagAt]
      replaceG_noTag_id [OF re_p_tagAt] replaceG_noTag_id [OF re_ul_tagAt]
      replaceG_noTag_id [OF re_tag_tagAt])

subsection \<open>What \<open>cleanSnippet\<close> returns\<close>

lemma collapsedText_Nil: "collapsedText [] = []"
  by (simp add: collapsedText_def collapse_def stripMarkup_def decodeEntities_def
      HTML_ENTITIES_def str_def trim_def replaceG.simps
      re_br_def re_li_def re_strong_def re_em_def re_p_def re_ul_def re_tag_def re_ws_def)

lemma collapsed_collapsedText: "collapsed (collapsedText s)"
  by (simp add: collapsedText_def collapsed_collapse)

lemma collapsedText_ends:
  assumes "collapsedText s \<noteq> []"
  shows "\<not> isWhiteSpace (hd (collapsedText s))" and "\<not> isWhiteSpace (last (collapsedText s))"
  using assms collapse_ends [of "stripMarkup (decodeEntities s)"]
  by (simp_all add: collapsedText_def)

lemma collapsedText_fixed:
  assumes "\<not> hasEntity r" and "\<not> hasTag r" and "collapsed r" and "r \<noteq> []"
    and "\<not> isWhiteSpace (hd r)" and "\<not> isWhiteSpace (last r)"
  shows "collapsedText r = r"
  using assms by (simp add: collapsedText_def decodeEntities_id stripMarkup_id collapse_id)

lemma cleanSnippet_shape:
  assumes "cleanSnippet snippet = Some r"
  shows "collapsed r" and "r \<noteq> []" and "\<not> isWhiteSpace (hd r)" and "\<not> isWhiteSpace (last r)"
    and "length r \<le> 220"
proof -
  from assms have "collapsed r \<and> r \<noteq> [] \<and> \<not> isWhiteSpace (hd r) \<and> \<not> isWhiteSpace (last r)
    \<and> length r \<le> 220"
  proof (cases rule: cleanSnippet_cases)
    case (1 s)
    let ?a = "trim (take 217 (collapsedText s))"
    have c: "collapsed ?a"
      by (intro collapsed_trim collapsed_take collapsed_collapsedText)
    have h: "\<not> isWhiteSpace (hd (?a @ [ELLIPSIS]))"
      using trim_ends(1) [of "take 217 (collapsedText s)"] by (cases "?a = []") simp_all
    have "length ?a \<le> 217"
      using length_trim_le [of "take 217 (collapsedText s)"] by simp
    with c h 1 show ?thesis by (simp add: collapsed_snoc)
  next
    case (2 s)
    with collapsedText_ends [of s] collapsed_collapsedText [of s] show ?thesis by simp
  qed
  then show "collapsed r" and "r \<noteq> []" and "\<not> isWhiteSpace (hd r)"
    and "\<not> isWhiteSpace (last r)" and "length r \<le> 220"
    by simp_all
qed

lemma cleanSnippet_fixed:
  assumes "cleanSnippet snippet = Some r" and "\<not> hasEntity r"
  shows "cleanSnippet (Some r) = Some r"
proof -
  have "collapsedText r = r"
    using assms(2) noTag_cleanSnippet [OF assms(1)] cleanSnippet_shape(1-4) [OF assms(1)]
    by (rule collapsedText_fixed)
  with cleanSnippet_shape(2,5) [OF assms(1)] show ?thesis
    by (simp add: cleanSnippet_def)
qed

subsection \<open>Plain text\<close>

lemma plain_collapsedText:
  assumes "s \<noteq> []" and "\<forall>c \<in> set s. c \<noteq> LT \<and> c \<noteq> AMP \<and> \<not> isWhiteSpace c"
  shows "collapsedText s = s"
proof (rule collapsedText_fixed)
  from assms(2) have "AMP \<notin> set s" by auto
  then show "\<not> hasEntity s" by (rule noAMP_noEntity)
  from assms(2) have "LT \<notin> set s" by auto
  then show "\<not> hasTag s" by (rule noLT_noTag)
  from assms(2) show "collapsed s" by (intro noWS_collapsed) simp
  show "s \<noteq> []" by (rule assms(1))
  from assms show "\<not> isWhiteSpace (hd s)" by (cases s) auto
  from assms show "\<not> isWhiteSpace (last s)" using last_in_set [of s] by blast
qed

lemma plain_truncated:
  assumes "220 < length s" and "\<forall>c \<in> set s. c \<noteq> LT \<and> c \<noteq> AMP \<and> \<not> isWhiteSpace c"
  shows "cleanSnippet (Some s) = Some (take 217 s @ [ELLIPSIS])"
proof -
  from assms(1) have ne: "s \<noteq> []" by auto
  have fx: "collapsedText s = s" using ne assms(2) by (rule plain_collapsedText)
  have t: "take 217 s \<noteq> []" using ne by simp
  have "set (take 217 s) \<subseteq> set s" by (rule set_take_subset)
  with assms(2) have p: "\<forall>c \<in> set (take 217 s). \<not> isWhiteSpace c" by auto
  have "\<not> isWhiteSpace (hd (take 217 s))" using t p hd_in_set by blast
  moreover have "\<not> isWhiteSpace (last (take 217 s))" using t p last_in_set by blast
  ultimately have "trim (take 217 s) = take 217 s" using t by (intro trim_id)
  with fx ne assms(1) show ?thesis by (simp add: cleanSnippet_def)
qed

lemma collapsed_snoc_ws:
  "collapsed (b @ [x]) \<Longrightarrow> isWhiteSpace x \<Longrightarrow> b \<noteq> [] \<Longrightarrow> \<not> isWhiteSpace (last b)"
proof (induction b rule: collapsed.induct)
  case 1
  then show ?case by simp
next
  case (2 c)
  then show ?case by auto
next
  case (3 c d rest)
  then show ?case by auto
qed

lemma trim_snoc_ws:
  assumes "b \<noteq> []" and "\<not> isWhiteSpace (hd b)" and "\<not> isWhiteSpace (last b)"
    and "isWhiteSpace x"
  shows "trim (b @ [x]) = b"
proof -
  from assms(1,2) have 1: "dropWhile isWhiteSpace (b @ [x]) = b @ [x]" by (cases b) auto
  from assms(1,3) have "\<not> isWhiteSpace (hd (rev b))" by (simp add: hd_rev)
  with assms(1) have 2: "dropWhile isWhiteSpace (rev b) = rev b" by (cases "rev b") auto
  from 1 2 assms(4) show ?thesis by (simp add: trim_def)
qed

lemma truncated_length:
  assumes "220 < length (collapsedText s)"
  shows "length (trim (take 217 (collapsedText s)) @ [ELLIPSIS]) =
           (if isWhiteSpace (collapsedText s ! 216) then 217 else 218)"
proof -
  let ?c = "collapsedText s"
  let ?b = "take 216 ?c"
  let ?x = "?c ! 216"
  from assms have ne: "?c \<noteq> []" by auto
  have a: "take 217 ?c = ?b @ [?x]"
    using assms take_Suc_conv_app_nth [of 216 ?c] by simp
  have b: "?b \<noteq> []" using assms by auto
  have hb: "hd ?b = hd ?c" using ne by (cases ?c) auto
  have h: "\<not> isWhiteSpace (hd ?b)" using collapsedText_ends(1) [OF ne] hb by simp
  have lb: "length ?b = 216" using assms by simp
  show ?thesis
  proof (cases "isWhiteSpace ?x")
    case True
    have "collapsed (?b @ [?x])"
      using collapsed_take [OF collapsed_collapsedText, of 217 s] a by simp
    then have "\<not> isWhiteSpace (last ?b)" using True b by (rule collapsed_snoc_ws)
    with b h True have "trim (?b @ [?x]) = ?b" by (intro trim_snoc_ws)
    with a True lb show ?thesis by simp
  next
    case False
    have "trim (?b @ [?x]) = ?b @ [?x]"
      using b h False by (intro trim_id) simp_all
    with a False lb show ?thesis by simp
  qed
qed

subsection \<open>Sorting with a comparator\<close>

lemma mset_insertBy: "mset (insertBy cmp x ys) = add_mset x (mset ys)"
  by (induction ys) auto

lemma mset_sortBy: "mset (sortBy cmp xs) = mset xs"
  by (induction xs) (auto simp: sortBy_def mset_insertBy)

lemma set_sortBy: "set (sortBy cmp xs) = set xs"
  using mset_sortBy [of cmp xs] by (metis set_mset_mset)

lemma sortBy_Cons: "sortBy cmp (x # xs) = insertBy cmp x (sortBy cmp xs)"
  by (simp add: sortBy_def)

lemma set_insertBy: "set (insertBy cmp x ys) = insert x (set ys)"
  using mset_insertBy [of cmp x ys] by (metis set_mset_add_mset_insert set_mset_mset)

lemma sorted_insertBy:
  assumes tr: "\<And>a b c. a \<in> A \<Longrightarrow> b \<in> A \<Longrightarrow> c \<in> A \<Longrightarrow>
                 cmp a b \<le> 0 \<Longrightarrow> cmp b c \<le> 0 \<Longrightarrow> cmp a c \<le> 0"
    and tot: "\<And>a b. a \<in> A \<Longrightarrow> b \<in> A \<Longrightarrow> cmp a b \<le> 0 \<or> cmp b a \<le> 0"
    and "x \<in> A" and "set ys \<subseteq> A"
    and "sorted_wrt (\<lambda>a b. cmp a b \<le> 0) ys"
  shows "sorted_wrt (\<lambda>a b. cmp a b \<le> 0) (insertBy cmp x ys)"
  using assms(4,5)
proof (induction ys)
  case Nil
  then show ?case by simp
next
  case (Cons y ys)
  show ?case
  proof (cases "cmp x y \<le> 0")
    case True
    have "cmp x z \<le> 0" if "z \<in> set ys" for z
    proof -
      from Cons.prems that have "cmp y z \<le> 0" and "z \<in> A" and "y \<in> A" by auto
      with True \<open>x \<in> A\<close> show ?thesis using tr by blast
    qed
    with True Cons.prems show ?thesis by auto
  next
    case False
    from Cons.prems have yA: "y \<in> A" by simp
    from False tot [OF \<open>x \<in> A\<close> yA] have "cmp y x \<le> 0" by simp
    moreover have "sorted_wrt (\<lambda>a b. cmp a b \<le> 0) (insertBy cmp x ys)"
      using Cons by simp
    ultimately show ?thesis using False Cons.prems by (auto simp: set_insertBy)
  qed
qed

lemma sorted_sortBy:
  assumes tr: "\<And>a b c. a \<in> A \<Longrightarrow> b \<in> A \<Longrightarrow> c \<in> A \<Longrightarrow>
                 cmp a b \<le> 0 \<Longrightarrow> cmp b c \<le> 0 \<Longrightarrow> cmp a c \<le> 0"
    and tot: "\<And>a b. a \<in> A \<Longrightarrow> b \<in> A \<Longrightarrow> cmp a b \<le> 0 \<or> cmp b a \<le> 0"
    and "set xs \<subseteq> A"
  shows "sorted_wrt (\<lambda>a b. cmp a b \<le> 0) (sortBy cmp xs)"
  using assms(3)
proof (induction xs)
  case Nil
  then show ?case by (simp add: sortBy_def)
next
  case (Cons x xs)
  have "sorted_wrt (\<lambda>a b. cmp a b \<le> 0) (insertBy cmp x (sortBy cmp xs))"
  proof (rule sorted_insertBy [where A = A])
    show "x \<in> A" using Cons.prems by simp
    show "set (sortBy cmp xs) \<subseteq> A" using Cons.prems by (simp add: set_sortBy)
    show "sorted_wrt (\<lambda>a b. cmp a b \<le> 0) (sortBy cmp xs)" using Cons by simp
  qed (use tr tot in blast)+
  then show ?case by (simp add: sortBy_Cons)
qed

lemma filter_insertBy:
  assumes "\<And>y. y \<in> set ys \<Longrightarrow> P x \<Longrightarrow> P y \<Longrightarrow> cmp x y \<le> 0"
  shows "filter P (insertBy cmp x ys) = (if P x then x # filter P ys else filter P ys)"
  using assms by (induction ys) auto

lemma filter_sortBy:
  assumes "\<And>x y. x \<in> set xs \<Longrightarrow> y \<in> set xs \<Longrightarrow> P x \<Longrightarrow> P y \<Longrightarrow> cmp x y \<le> 0"
  shows "filter P (sortBy cmp xs) = filter P xs"
  using assms
proof (induction xs)
  case Nil
  then show ?case by (simp add: sortBy_def)
next
  case (Cons x xs)
  have ih: "filter P (sortBy cmp xs) = filter P xs" using Cons by simp
  have "filter P (insertBy cmp x (sortBy cmp xs))
      = (if P x then x # filter P (sortBy cmp xs) else filter P (sortBy cmp xs))"
    by (rule filter_insertBy) (use Cons.prems in \<open>simp add: set_sortBy\<close>)
  with ih show ?case by (simp add: sortBy_Cons)
qed

subsection \<open>Comparators\<close>

lemma consistentD:
  assumes "consistentComparator f"
  shows "f a a = 0" and "f a b \<le> 0 \<or> f b a \<le> 0" and "(f a b < 0) = (\<not> f b a \<le> 0)"
    and "(f a b = 0) = (f a b \<le> 0 \<and> f b a \<le> 0)"
    and "f a b \<le> 0 \<Longrightarrow> f b c \<le> 0 \<Longrightarrow> f a c \<le> 0"
proof -
  from assms have r: "\<And>a. f a a = 0" and s: "\<And>a b. (f a b < 0) = (0 < f b a)"
    and t: "\<And>a b c. f a b \<le> 0 \<Longrightarrow> f b c \<le> 0 \<Longrightarrow> f a c \<le> 0"
    unfolding consistentComparator_def by blast+
  show "f a a = 0" by (rule r)
  show "f a b \<le> 0 \<or> f b a \<le> 0" using s [of b a] by linarith
  show "(f a b < 0) = (\<not> f b a \<le> 0)" using s [of a b] by linarith
  show "(f a b = 0) = (f a b \<le> 0 \<and> f b a \<le> 0)" using s [of a b] s [of b a] by linarith
  show "f a b \<le> 0 \<Longrightarrow> f b c \<le> 0 \<Longrightarrow> f a c \<le> 0" by (rule t)
qed

lemma consistent_compareCodeUnits: "consistentComparator compareCodeUnits"
  by (auto simp: consistentComparator_def compareCodeUnits_def)

lemma compareCodeUnits_zero: "compareCodeUnits a b = 0 \<Longrightarrow> a = b"
  by (auto simp: compareCodeUnits_def split: if_splits)

lemma consistent_compareCanonical: "consistentComparator compareCanonical"
  using consistent_compareCodeUnits
  unfolding consistentComparator_def compareCanonical_def by blast

lemma visaPriority_inj: "(visaPriority a = visaPriority b) = (a = b)"
  by (cases a; cases b) (simp_all add: visaPriority_def)

lemma visaPriority_less: "(visaPriority a < visaPriority b) = (a = Mentioned \<and> b = NotMentioned)"
  by (cases a; cases b) (simp_all add: visaPriority_def)

lemma threeKeyLe_total:
  assumes "consistentComparator lc"
  shows "threeKeyLe lc a b \<or> threeKeyLe lc b a"
  using consistentD(2) [OF assms, of "country a" "country b"]
    consistentD(2) [OF assms, of "company a" "company b"]
    consistentD(3) [OF assms, of "country a" "country b"]
    consistentD(3) [OF assms, of "country b" "country a"]
    consistentD(4) [OF assms, of "country a" "country b"]
    consistentD(4) [OF assms, of "country b" "country a"]
  unfolding threeKeyLe_def visaPriority_inj visaPriority_less
  by (cases "visaStatus a"; cases "visaStatus b") auto

lemma threeKeyLe_trans:
  assumes c: "consistentComparator lc"
    and ab: "threeKeyLe lc a b" and bc: "threeKeyLe lc b c"
  shows "threeKeyLe lc a c"
proof -
  let ?le = "\<lambda>x y. lc x y \<le> 0"
  have lt: "\<And>x y. (lc x y < 0) = (\<not> ?le y x)" by (rule consistentD(3) [OF c])
  have eq: "\<And>x y. (lc x y = 0) = (?le x y \<and> ?le y x)" by (rule consistentD(4) [OF c])
  have tr: "\<And>x y z. ?le x y \<Longrightarrow> ?le y z \<Longrightarrow> ?le x z" by (rule consistentD(5) [OF c])
  have tot: "\<And>x y. ?le x y \<or> ?le y x" by (rule consistentD(2) [OF c])
  show ?thesis
  proof (cases "visaStatus a = visaStatus b \<and> visaStatus b = visaStatus c")
    case False
    with ab bc show ?thesis
      unfolding threeKeyLe_def visaPriority_inj visaPriority_less
      by (cases "visaStatus a"; cases "visaStatus b"; cases "visaStatus c") auto
  next
    case True
    with ab have 1: "\<not> ?le (country b) (country a) \<or>
        (?le (country a) (country b) \<and> ?le (country b) (country a) \<and> ?le (company a) (company b))"
      unfolding threeKeyLe_def lt eq by simp
    from True bc have 2: "\<not> ?le (country c) (country b) \<or>
        (?le (country b) (country c) \<and> ?le (country c) (country b) \<and> ?le (company b) (company c))"
      unfolding threeKeyLe_def lt eq by simp
    have "\<not> ?le (country c) (country a) \<or>
        (?le (country a) (country c) \<and> ?le (country c) (country a) \<and> ?le (company a) (company c))"
      using 1 2 tr tot by metis
    with True show ?thesis unfolding threeKeyLe_def lt eq by simp
  qed
qed

lemma compareJobs_threeKeyLe:
  assumes c: "consistentComparator lc"
    and inj: "lc (country a) (country b) = 0 \<longrightarrow> country a = country b"
  shows "(compareJobs lc a b \<le> 0) = threeKeyLe lc a b"
proof (cases "visaStatus a = visaStatus b")
  case False
  then show ?thesis
    unfolding threeKeyLe_def compareJobs_def visaPriority_inj visaPriority_less
    by (cases "visaStatus a"; cases "visaStatus b") auto
next
  case True
  show ?thesis
  proof (cases "country a = country b")
    case True
    with \<open>visaStatus a = visaStatus b\<close> consistentD(1) [OF c, of "country b"] show ?thesis
      by (simp add: threeKeyLe_def compareJobs_def)
  next
    case False
    with inj have "lc (country a) (country b) \<noteq> 0" by blast
    with False \<open>visaStatus a = visaStatus b\<close> show ?thesis
      by (auto simp: threeKeyLe_def compareJobs_def)
  qed
qed

subsection \<open>Values of a set\<close>

lemma setValues_fold:
  "set (foldl (\<lambda>acc x. if x \<in> set acc then acc else acc @ [x]) acc xs) = set acc \<union> set xs"
  by (induction xs arbitrary: acc) auto

lemma distinct_fold:
  "distinct acc \<Longrightarrow> distinct (foldl (\<lambda>acc x. if x \<in> set acc then acc else acc @ [x]) acc xs)"
  by (induction xs arbitrary: acc) auto

lemma set_setValues: "set (setValues xs) = set xs"
  by (simp add: setValues_def setValues_fold)

lemma distinct_setValues: "distinct (setValues xs)"
  by (simp add: setValues_def distinct_fold)

section \<open>Properties of the sanitizer, the sort, the statistics and the filter\<close>

subsection \<open>Encoded tags\<close>

text \<open>
  C1 as stated fails: entities are decoded before the tag rules run, so the rules
  see \<open><br>\<close> where the input had \<open>&lt;br&gt;\<close> and replace it by a space.
\<close>

theorem encoded_tag_counterexample:
  "LT \<notin> set (str ''a&lt;br&gt;b'')
   \<and> decodeEntities (str ''a&lt;br&gt;b'') = str ''a<br>b''
   \<and> stripMarkup (str ''a<br>b'') = str ''a b''
   \<and> cleanSnippet (Some (str ''a&lt;br&gt;b'')) = Some (str ''a b'')"
  by code_simp

text \<open>
  C1, amended. The tag rules work on the decoded text: a tag written with \<open>&lt;\<close>
  and \<open>&gt;\<close> is sanitized exactly as the same tag written with \<open><\<close> and \<open>>\<close>
  (for a tag body and surrounding text without \<open>&\<close>).
\<close>

theorem encoded_tag_is_markup:
  assumes "AMP \<notin> set u" and "AMP \<notin> set t" and "AMP \<notin> set v"
  shows "cleanSnippet (Some (u @ str ''&lt;'' @ t @ str ''&gt;'' @ v))
       = cleanSnippet (Some (u @ [LT] @ t @ [GT] @ v))"
proof -
  have "AMP \<notin> set (u @ [LT] @ t @ [GT] @ v)" using assms by simp
  then have "decodeEntities (u @ [LT] @ t @ [GT] @ v) = u @ [LT] @ t @ [GT] @ v"
    by (intro decodeEntities_id noAMP_noEntity)
  moreover have "decodeEntities (u @ str ''&lt;'' @ t @ str ''&gt;'' @ v) = u @ [LT] @ t @ [GT] @ v"
    using assms by (rule decodeEntities_encoded_tag)
  ultimately have "collapsedText (u @ str ''&lt;'' @ t @ str ''&gt;'' @ v)
      = collapsedText (u @ [LT] @ t @ [GT] @ v)"
    by (simp add: collapsedText_def)
  then show ?thesis by (simp add: cleanSnippet_def str_def)
qed

theorem encoded_tag_is_markup_witness:
  "AMP \<notin> set (str ''Visa'') \<and> AMP \<notin> set (str ''li'') \<and> AMP \<notin> set (str ''paid'')
   \<and> cleanSnippet (Some (str ''Visa'' @ str ''&lt;'' @ str ''li'' @ str ''&gt;'' @ str ''paid''))
     = cleanSnippet (Some (str ''Visa'' @ [LT] @ str ''li'' @ [GT] @ str ''paid''))
   \<and> cleanSnippet (Some (str ''Visa'' @ [LT] @ str ''li'' @ [GT] @ str ''paid''))
     = Some (str ''Visa'' @ [SP, BULLET, SP] @ str ''paid'')"
proof -
  have 1: "AMP \<notin> set (str ''Visa'')" and 2: "AMP \<notin> set (str ''li'')"
    and 3: "AMP \<notin> set (str ''paid'')"
    by (simp_all add: str_def AMP_def)
  have 4: "cleanSnippet (Some (str ''Visa'' @ [LT] @ str ''li'' @ [GT] @ str ''paid''))
     = Some (str ''Visa'' @ [SP, BULLET, SP] @ str ''paid'')"
    by code_simp
  from 1 2 3 encoded_tag_is_markup [OF 1 2 3] 4 show ?thesis by (intro conjI)
qed

subsection \<open>Applying the sanitizer twice\<close>

text \<open>
  C2 as stated fails: the input \<open>&amp;amp;\<close> is sanitized to \<open>&amp;\<close>, which a second
  application decodes again, to \<open>&\<close>.
\<close>

theorem cleanSnippet_idempotent_counterexample:
  "cleanSnippet (Some (str ''&amp;amp;'')) = Some (str ''&amp;'')
   \<and> cleanSnippet (cleanSnippet (Some (str ''&amp;amp;''))) = Some (str ''&'')
   \<and> cleanSnippet (cleanSnippet (Some (str ''&amp;amp;''))) \<noteq> cleanSnippet (Some (str ''&amp;amp;''))"
  by code_simp

text \<open>
  C2, amended. When the result of \<open>cleanSnippet\<close> is absent, or is a string in which
  none of the six entities of the table occurs, applying \<open>cleanSnippet\<close> to it gives
  the same result again.
\<close>

theorem cleanSnippet_idempotent:
  assumes "\<forall>r. cleanSnippet snippet = Some r \<longrightarrow> \<not> hasEntity r"
  shows "cleanSnippet (cleanSnippet snippet) = cleanSnippet snippet"
proof (cases "cleanSnippet snippet")
  case None
  then show ?thesis by (simp add: cleanSnippet_def)
next
  case (Some r)
  with assms have "\<not> hasEntity r" by simp
  with Some have "cleanSnippet (Some r) = Some r" by (rule cleanSnippet_fixed)
  with Some show ?thesis by simp
qed

theorem cleanSnippet_idempotent_witness:
  "cleanSnippet (Some (str ''Relocation &amp; visa <strong>sponsored</strong><br>Apply now''))
     = Some (str ''Relocation & visa sponsored Apply now'')
   \<and> \<not> hasEntity (str ''Relocation & visa sponsored Apply now'')
   \<and> cleanSnippet (cleanSnippet
        (Some (str ''Relocation &amp; visa <strong>sponsored</strong><br>Apply now'')))
     = cleanSnippet (Some (str ''Relocation &amp; visa <strong>sponsored</strong><br>Apply now''))"
proof -
  let ?x = "Some (str ''Relocation &amp; visa <strong>sponsored</strong><br>Apply now'')"
  have 1: "cleanSnippet ?x = Some (str ''Relocation & visa sponsored Apply now'')"
    by code_simp
  have 2: "\<not> hasEntity (str ''Relocation & visa sponsored Apply now'')"
    by code_simp
  from 1 2 have "\<forall>r. cleanSnippet ?x = Some r \<longrightarrow> \<not> hasEntity r" by simp
  from 1 2 cleanSnippet_idempotent [OF this] show ?thesis by (intro conjI)
qed

subsection \<open>Angle brackets in the result\<close>

text \<open>
  C3 as stated fails: a \<open>&gt;\<close> or \<open>&lt;\<close> of the input is decoded to \<open>>\<close> or \<open><\<close>, and
  an angle bracket that is not part of a tag is kept.
\<close>

theorem cleanSnippet_angle_counterexample:
  "cleanSnippet (Some (str ''a &gt; b &lt; c'')) = Some (str ''a > b < c'')
   \<and> GT \<in> set (str ''a > b < c'') \<and> LT \<in> set (str ''a > b < c'')"
  by code_simp

text \<open>
  C3, amended. No string that \<open>cleanSnippet\<close> returns contains a markup tag: a \<open><\<close>,
  then one or more code units other than \<open>>\<close>, then a \<open>>\<close>.
\<close>

theorem cleanSnippet_no_tag:
  "cleanSnippet snippet = Some r \<Longrightarrow>
     \<not> (\<exists>p m q. r = p @ [LT] @ m @ [GT] @ q \<and> m \<noteq> [] \<and> GT \<notin> set m)"
proof
  assume a: "cleanSnippet snippet = Some r"
  assume "\<exists>p m q. r = p @ [LT] @ m @ [GT] @ q \<and> m \<noteq> [] \<and> GT \<notin> set m"
  then obtain p m q where "r = p @ [LT] @ m @ [GT] @ q" and "m \<noteq> []" and "GT \<notin> set m"
    by blast
  then have "hasTag r" by (rule hasTag_decomp)
  with noTag_cleanSnippet [OF a] show False by simp
qed

theorem cleanSnippet_no_tag_witness:
  "cleanSnippet (Some (str ''<i>x</i> &gt; y &lt;'')) = Some (str ''x > y <'')
   \<and> \<not> (\<exists>p m q. str ''x > y <'' = p @ [LT] @ m @ [GT] @ q \<and> m \<noteq> [] \<and> GT \<notin> set m)"
proof -
  have h: "cleanSnippet (Some (str ''<i>x</i> &gt; y &lt;'')) = Some (str ''x > y <'')"
    by code_simp
  from h cleanSnippet_no_tag [OF h] show ?thesis by (rule conjI)
qed

subsection \<open>Truncation\<close>

text \<open>
  C4 as stated fails: plain text of 300 code units whose 217th code unit is a space
  is cut to 216 code units and the ellipsis, 217 in all.
\<close>

theorem cleanSnippet_300_counterexample:
  "length (replicate 216 (0x61 :: cu) @ [SP] @ replicate 83 0x61) = 300
   \<and> cleanSnippet (Some (replicate 216 0x61 @ [SP] @ replicate 83 0x61))
     = Some (replicate 216 0x61 @ [ELLIPSIS])
   \<and> length (replicate 216 (0x61 :: cu) @ [ELLIPSIS]) = 217"
proof -
  let ?a = "0x61 :: cu"
  let ?s = "replicate 216 ?a @ [SP] @ replicate 83 ?a"
  have a: "\<not> isWhiteSpace ?a" "?a \<noteq> LT" "?a \<noteq> AMP"
    by (simp_all add: isWhiteSpace_def LT_def AMP_def)
  have "AMP \<notin> set ?s" using a by (auto simp: AMP_def SP_def)
  then have e: "\<not> hasEntity ?s" by (rule noAMP_noEntity)
  have "LT \<notin> set ?s" using a by (auto simp: LT_def SP_def)
  then have t: "\<not> hasTag ?s" by (rule noLT_noTag)
  have c83: "collapsed (SP # replicate 83 ?a)"
    using a by (simp add: collapsed_SP_Cons noWS_collapsed)
  have pre: "collapsed (u @ w) = collapsed w" if "\<forall>c \<in> set u. \<not> isWhiteSpace c" for u w
    using that by (induction u) (simp_all add: collapsed_Cons_other)
  have c: "collapsed ?s" using pre [of "replicate 216 ?a" "SP # replicate 83 ?a"] c83 a by simp
  have ne: "?s \<noteq> []" by simp
  have h: "\<not> isWhiteSpace (hd ?s)" using a by (simp add: hd_append)
  have l: "\<not> isWhiteSpace (last ?s)" using a by simp
  have fx: "collapsedText ?s = ?s" using e t c ne h l by (rule collapsedText_fixed)
  have tk: "take 217 ?s = replicate 216 ?a @ [SP]" by simp
  have tr: "trim (replicate 216 ?a @ [SP]) = replicate 216 ?a"
    using a by (intro trim_snoc_ws) simp_all
  have "cleanSnippet (Some ?s) = Some (replicate 216 ?a @ [ELLIPSIS])"
    using fx tk tr by (simp add: cleanSnippet_def)
  then show ?thesis by simp
qed

text \<open>
  C4, amended. Whenever the collapsed text \<open>c\<close> is not empty, \<open>cleanSnippet\<close>
  returns \<open>c\<close> itself if \<open>c\<close> has at most 220 code units, and otherwise the first 217
  code units of \<open>c\<close>, trimmed, followed by one ellipsis; the truncated result has 218
  code units if the 217th code unit of \<open>c\<close> is not whitespace and 217 if it is. For
  an input of 300 code units without whitespace, \<open><\<close> and \<open>&\<close> the collapsed text is
  the input, and the result is its first 217 code units and the ellipsis, 218 in
  all.
\<close>

theorem cleanSnippet_truncation:
  "(collapsedText s \<noteq> [] \<longrightarrow>
      cleanSnippet (Some s) =
        Some (if 220 < length (collapsedText s)
              then trim (take 217 (collapsedText s)) @ [ELLIPSIS]
              else collapsedText s))
   \<and> (220 < length (collapsedText s) \<longrightarrow>
        length (trim (take 217 (collapsedText s)) @ [ELLIPSIS]) =
          (if isWhiteSpace (collapsedText s ! 216) then 217 else 218))
   \<and> (length s = 300 \<and> (\<forall>c \<in> set s. c \<noteq> LT \<and> c \<noteq> AMP \<and> \<not> isWhiteSpace c) \<longrightarrow>
        collapsedText s = s
        \<and> cleanSnippet (Some s) = Some (take 217 s @ [ELLIPSIS])
        \<and> length (take 217 s @ [ELLIPSIS]) = 218)"
proof (intro conjI impI)
  assume ne: "collapsedText s \<noteq> []"
  then have "s \<noteq> []" using collapsedText_Nil by auto
  with ne show "cleanSnippet (Some s) =
        Some (if 220 < length (collapsedText s)
              then trim (take 217 (collapsedText s)) @ [ELLIPSIS]
              else collapsedText s)"
    by (simp add: cleanSnippet_def)
next
  assume "220 < length (collapsedText s)"
  then show "length (trim (take 217 (collapsedText s)) @ [ELLIPSIS]) =
          (if isWhiteSpace (collapsedText s ! 216) then 217 else 218)"
    by (rule truncated_length)
next
  assume a: "length s = 300 \<and> (\<forall>c \<in> set s. c \<noteq> LT \<and> c \<noteq> AMP \<and> \<not> isWhiteSpace c)"
  then have ne: "s \<noteq> []" by auto
  from a have plain: "\<forall>c \<in> set s. c \<noteq> LT \<and> c \<noteq> AMP \<and> \<not> isWhiteSpace c" by simp
  show "collapsedText s = s" using ne plain by (rule plain_collapsedText)
  from a have "220 < length s" by simp
  then show "cleanSnippet (Some s) = Some (take 217 s @ [ELLIPSIS])"
    using plain by (rule plain_truncated)
  from a show "length (take 217 s @ [ELLIPSIS]) = 218" by simp
qed

theorem cleanSnippet_truncation_witness:
  "collapsedText (replicate 300 0x61) \<noteq> []
   \<and> 220 < length (collapsedText (replicate 300 0x61))
   \<and> length (replicate 300 (0x61 :: cu)) = 300
   \<and> set (replicate 300 (0x61 :: cu)) = {0x61}
   \<and> (0x61 :: cu) \<noteq> LT \<and> (0x61 :: cu) \<noteq> AMP \<and> \<not> isWhiteSpace 0x61
   \<and> cleanSnippet (Some (replicate 300 0x61)) = Some (replicate 217 0x61 @ [ELLIPSIS])
   \<and> length (replicate 217 (0x61 :: cu) @ [ELLIPSIS]) = 218"
proof -
  let ?s = "replicate 300 (0x61 :: cu)"
  have h: "length ?s = 300 \<and> (\<forall>c \<in> set ?s. c \<noteq> LT \<and> c \<noteq> AMP \<and> \<not> isWhiteSpace c)"
    by (simp add: LT_def AMP_def isWhiteSpace_def)
  from cleanSnippet_truncation [of ?s] h
  have r: "collapsedText ?s = ?s \<and> cleanSnippet (Some ?s) = Some (take 217 ?s @ [ELLIPSIS])"
    by blast
  then have "collapsedText ?s \<noteq> []" and "220 < length (collapsedText ?s)" by simp_all
  moreover have "take 217 ?s = replicate 217 0x61" by simp
  moreover have "(0x61 :: cu) \<noteq> LT \<and> (0x61 :: cu) \<noteq> AMP \<and> \<not> isWhiteSpace 0x61"
    by (simp add: LT_def AMP_def isWhiteSpace_def)
  ultimately show ?thesis using h r by simp
qed

subsection \<open>The order of the jobs\<close>

text \<open>
  Where no two different country strings of the list compare as equal, the guard
  of the comparator agrees with the comparison it returns: \<open>getJobs\<close> then returns
  the normalized jobs, each once, sorted by the three-key order, and the jobs that
  agree with a given job on the three keys keep their input order.
\<close>

lemma getJobs_sorted_stable:
  assumes "consistentComparator localeCompare"
    and "\<forall>a \<in> set rawJobs. \<forall>b \<in> set rawJobs.
           localeCompare (RawJob.country a) (RawJob.country b) = 0 \<longrightarrow>
           RawJob.country a = RawJob.country b"
  shows "mset (getJobs localeCompare rawJobs) = mset (map toJob rawJobs)
       \<and> sorted_wrt (threeKeyLe localeCompare) (getJobs localeCompare rawJobs)
       \<and> (\<forall>k. filter (sameKeys k) (getJobs localeCompare rawJobs)
              = filter (sameKeys k) (map toJob rawJobs))"
proof (intro conjI allI)
  let ?xs = "map toJob rawJobs"
  let ?cmp = "compareJobs localeCompare"
  show "mset (getJobs localeCompare rawJobs) = mset ?xs"
    by (simp add: getJobs_def mset_sortBy)
  have inj: "localeCompare (country a) (country b) = 0 \<longrightarrow> country a = country b"
    if "a \<in> set ?xs" and "b \<in> set ?xs" for a b
    using that assms(2) by (auto simp: toJob_def)
  have le: "(?cmp a b \<le> 0) = threeKeyLe localeCompare a b"
    if "a \<in> set ?xs" and "b \<in> set ?xs" for a b
    using assms(1) inj [OF that] by (rule compareJobs_threeKeyLe)
  have "sorted_wrt (\<lambda>a b. ?cmp a b \<le> 0) (sortBy ?cmp ?xs)"
  proof (rule sorted_sortBy [where A = "set ?xs"])
    fix a b c
    assume "a \<in> set ?xs" "b \<in> set ?xs" "c \<in> set ?xs" "?cmp a b \<le> 0" "?cmp b c \<le> 0"
    then show "?cmp a c \<le> 0" using le threeKeyLe_trans [OF assms(1)] by blast
  next
    fix a b
    assume "a \<in> set ?xs" "b \<in> set ?xs"
    then show "?cmp a b \<le> 0 \<or> ?cmp b a \<le> 0"
      using le threeKeyLe_total [OF assms(1)] by blast
  qed simp
  then have "sorted_wrt (threeKeyLe localeCompare) (sortBy ?cmp ?xs)"
    by (rule sorted_wrt_mono_rel [rotated]) (simp add: le set_sortBy)
  then show "sorted_wrt (threeKeyLe localeCompare) (getJobs localeCompare rawJobs)"
    by (simp add: getJobs_def)
  fix k
  have "filter (sameKeys k) (sortBy ?cmp ?xs) = filter (sameKeys k) ?xs"
  proof (rule filter_sortBy)
    fix x y
    assume "sameKeys k x" "sameKeys k y"
    then show "?cmp x y \<le> 0"
      using consistentD(1) [OF assms(1), of "company y"]
      by (simp add: sameKeys_def compareJobs_def)
  qed
  then show "filter (sameKeys k) (getJobs localeCompare rawJobs) = filter (sameKeys k) ?xs"
    by (simp add: getJobs_def)
qed

text \<open>
  C5. \<open>getJobs\<close> is to return the jobs sorted by visa status, then country, then
  company. The comparator misses a case: it compares the companies only when the
  country strings are identical (line 77), and returns the locale comparison of
  the countries as soon as the strings differ, also when that comparison is 0.
  With the countries U+212B and U+00C5, which are canonically equivalent, the
  jobs of the companies \<open>Z\<close> and \<open>A\<close> compare as equal and stay in their input
  order, so the result is not sorted by the three-key order; with the same country
  string in both jobs the path for identical countries puts \<open>A\<close> before \<open>Z\<close>. On
  three such jobs the comparator is not transitive.
\<close>

theorem getJobs_misses_equal_countries:
  "compareCanonical [0x212B] [0xC5] = 0
   \<and> compareJobs compareCanonical
       (\<lparr> Job.title = str ''Editor'', company = str ''Z'', country = [0x212B],
           location = str ''Remote'', visaStatus = NotMentioned, visaSnippet = None,
           jobType = str ''Full-time'', reason = str ''r'', link = str ''l1'',
           source = str ''s'' \<rparr>)
       (\<lparr> Job.title = str ''Editor'', company = str ''A'', country = [0xC5],
           location = str ''Remote'', visaStatus = NotMentioned, visaSnippet = None,
           jobType = str ''Full-time'', reason = str ''r'', link = str ''l2'',
           source = str ''s'' \<rparr>) = 0
   \<and> getJobs compareCanonical
       [\<lparr> RawJob.title = str ''Editor'', company = str ''Z'', country = [0x212B],
           location = str ''Remote'', visa_status = NotMentioned, visa_snippet = None,
           job_type = str ''Full-time'', reason = str ''r'', link = str ''l1'',
           source = str ''s'' \<rparr>,
        \<lparr> RawJob.title = str ''Editor'', company = str ''A'', country = [0xC5],
           location = str ''Remote'', visa_status = NotMentioned, visa_snippet = None,
           job_type = str ''Full-time'', reason = str ''r'', link = str ''l2'',
           source = str ''s'' \<rparr>]
     = [\<lparr> Job.title = str ''Editor'', company = str ''Z'', country = [0x212B],
           location = str ''Remote'', visaStatus = NotMentioned, visaSnippet = None,
           jobType = str ''Full-time'', reason = str ''r'', link = str ''l1'',
           source = str ''s'' \<rparr>,
        \<lparr> Job.title = str ''Editor'', company = str ''A'', country = [0xC5],
           location = str ''Remote'', visaStatus = NotMentioned, visaSnippet = None,
           jobType = str ''Full-time'', reason = str ''r'', link = str ''l2'',
           source = str ''s'' \<rparr>]
   \<and> \<not> sorted_wrt (threeKeyLe compareCanonical)
       (getJobs compareCanonical
         [\<lparr> RawJob.title = str ''Editor'', company = str ''Z'', country = [0x212B],
           location = str ''Remote'', visa_status = NotMentioned, visa_snippet = None,
           job_type = str ''Full-time'', reason = str ''r'', link = str ''l1'',
           source = str ''s'' \<rparr>,
          \<lparr> RawJob.title = str ''Editor'', company = str ''A'', country = [0xC5],
           location = str ''Remote'', visa_status = NotMentioned, visa_snippet = None,
           job_type = str ''Full-time'', reason = str ''r'', link = str ''l2'',
           source = str ''s'' \<rparr>])
   \<and> getJobs compareCanonical
       [\<lparr> RawJob.title = str ''Editor'', company = str ''Z'', country = [0xC5],
           location = str ''Remote'', visa_status = NotMentioned, visa_snippet = None,
           job_type = str ''Full-time'', reason = str ''r'', link = str ''l1'',
           source = str ''s'' \<rparr>,
        \<lparr> RawJob.title = str ''Editor'', company = str ''A'', country = [0xC5],
           location = str ''Remote'', visa_status = NotMentioned, visa_snippet = None,
           job_type = str ''Full-time'', reason = str ''r'', link = str ''l2'',
           source = str ''s'' \<rparr>]
     = [\<lparr> Job.title = str ''Editor'', company = str ''A'', country = [0xC5],
           location = str ''Remote'', visaStatus = NotMentioned, visaSnippet = None,
           jobType = str ''Full-time'', reason = str ''r'', link = str ''l2'',
           source = str ''s'' \<rparr>,
        \<lparr> Job.title = str ''Editor'', company = str ''Z'', country = [0xC5],
           location = str ''Remote'', visaStatus = NotMentioned, visaSnippet = None,
           jobType = str ''Full-time'', reason = str ''r'', link = str ''l1'',
           source = str ''s'' \<rparr>]
   \<and> compareJobs compareCanonical
       (\<lparr> Job.title = str ''Editor'', company = str ''A'', country = [0xC5],
           location = str ''Remote'', visaStatus = NotMentioned, visaSnippet = None,
           jobType = str ''Full-time'', reason = str ''r'', link = str ''l2'',
           source = str ''s'' \<rparr>)
       (\<lparr> Job.title = str ''Editor'', company = str ''A'', country = [0x212B],
           location = str ''Remote'', visaStatus = NotMentioned, visaSnippet = None,
           jobType = str ''Full-time'', reason = str ''r'', link = str ''l3'',
           source = str ''s'' \<rparr>) = 0
   \<and> 0 < compareJobs compareCanonical
       (\<lparr> Job.title = str ''Editor'', company = str ''Z'', country = [0x212B],
           location = str ''Remote'', visaStatus = NotMentioned, visaSnippet = None,
           jobType = str ''Full-time'', reason = str ''r'', link = str ''l1'',
           source = str ''s'' \<rparr>)
       (\<lparr> Job.title = str ''Editor'', company = str ''A'', country = [0x212B],
           location = str ''Remote'', visaStatus = NotMentioned, visaSnippet = None,
           jobType = str ''Full-time'', reason = str ''r'', link = str ''l3'',
           source = str ''s'' \<rparr>)"
  by (simp add: getJobs_def sortBy_def toJob_def compareJobs_def compareCanonical_def
      compareCodeUnits_def foldAngstrom_def threeKeyLe_def visaPriority_def cleanSnippet_def
      str_def)

subsection \<open>The visible subset\<close>

text \<open>
  C6. The visible subset is the list of jobs, in their order, that pass the four
  criteria together: the country selection is \<open>All\<close> or the job's country, the
  job-type selection is \<open>All\<close> or the job's type, the visa selection is \<open>All\<close> or
  the job's visa status, and the trimmed keyword is empty or, in lower case, a
  substring of the lower-cased text \<open>title + " " + company + " " + reason\<close>.
\<close>

theorem filteredJobs_criteria:
  "filteredJobs toLowerCase jobs countrySel jobTypeSel visaSel searchTerm =
     filter (\<lambda>job.
        (countrySel = str ''All'' \<or> country job = countrySel) \<and>
        (jobTypeSel = str ''All'' \<or> jobType job = jobTypeSel) \<and>
        (visaSel = AllStatuses \<or> visaSel = Status (visaStatus job)) \<and>
        (trim searchTerm = [] \<or>
         includesStr (toLowerCase (title job @ [SP] @ company job @ [SP] @ reason job))
           (toLowerCase (trim searchTerm)))) jobs
   \<and> (job \<in> set (filteredJobs toLowerCase jobs countrySel jobTypeSel visaSel searchTerm)
        \<longleftrightarrow>
        job \<in> set jobs \<and>
        (countrySel = str ''All'' \<or> country job = countrySel) \<and>
        (jobTypeSel = str ''All'' \<or> jobType job = jobTypeSel) \<and>
        (visaSel = AllStatuses \<or> visaSel = Status (visaStatus job)) \<and>
        (trim searchTerm = [] \<or>
         includesStr (toLowerCase (title job @ [SP] @ company job @ [SP] @ reason job))
           (toLowerCase (trim searchTerm))))"
proof -
  have "keepJob toLowerCase countrySel jobTypeSel visaSel searchTerm =
        (\<lambda>j. (countrySel = str ''All'' \<or> country j = countrySel) \<and>
         (jobTypeSel = str ''All'' \<or> jobType j = jobTypeSel) \<and>
         (visaSel = AllStatuses \<or> visaSel = Status (visaStatus j)) \<and>
         (trim searchTerm = [] \<or>
          includesStr (toLowerCase (title j @ [SP] @ company j @ [SP] @ reason j))
            (toLowerCase (trim searchTerm))))"
    unfolding keepJob_def Let_def by (rule ext) auto
  then show ?thesis by (simp add: filteredJobs_def)
qed

theorem filteredJobs_criteria_witness:
  "\<lparr> Job.title = str ''Video Editor'', company = str ''Acme'', country = str ''UK'',
      location = str ''London'', visaStatus = Mentioned, visaSnippet = None,
      jobType = str ''Full-time'', reason = str ''editing'', link = str ''l1'',
      source = str ''s'' \<rparr>
   \<in> set (filteredJobs toLowerCaseASCII
       [\<lparr> Job.title = str ''Video Editor'', company = str ''Acme'', country = str ''UK'',
           location = str ''London'', visaStatus = Mentioned, visaSnippet = None,
           jobType = str ''Full-time'', reason = str ''editing'', link = str ''l1'',
           source = str ''s'' \<rparr>,
        \<lparr> Job.title = str ''Colorist'', company = str ''Acme'', country = str ''UK'',
           location = str ''London'', visaStatus = Mentioned, visaSnippet = None,
           jobType = str ''Full-time'', reason = str ''grading'', link = str ''l2'',
           source = str ''s'' \<rparr>]
       (str ''UK'') (str ''All'') AllStatuses (str '' VIDEO ''))
   \<and> filteredJobs toLowerCaseASCII
       [\<lparr> Job.title = str ''Video Editor'', company = str ''Acme'', country = str ''UK'',
           location = str ''London'', visaStatus = Mentioned, visaSnippet = None,
           jobType = str ''Full-time'', reason = str ''editing'', link = str ''l1'',
           source = str ''s'' \<rparr>,
        \<lparr> Job.title = str ''Colorist'', company = str ''Acme'', country = str ''UK'',
           location = str ''London'', visaStatus = Mentioned, visaSnippet = None,
           jobType = str ''Full-time'', reason = str ''grading'', link = str ''l2'',
           source = str ''s'' \<rparr>]
       (str ''UK'') (str ''All'') AllStatuses (str '' VIDEO '')
     = [\<lparr> Job.title = str ''Video Editor'', company = str ''Acme'', country = str ''UK'',
           location = str ''London'', visaStatus = Mentioned, visaSnippet = None,
           jobType = str ''Full-time'', reason = str ''editing'', link = str ''l1'',
           source = str ''s'' \<rparr>]"
proof -
  let ?j1 = "\<lparr> Job.title = str ''Video Editor'', company = str ''Acme'', country = str ''UK'',
      location = str ''London'', visaStatus = Mentioned, visaSnippet = None,
      jobType = str ''Full-time'', reason = str ''editing'', link = str ''l1'',
      source = str ''s'' \<rparr>"
  let ?j2 = "\<lparr> Job.title = str ''Colorist'', company = str ''Acme'', country = str ''UK'',
           location = str ''London'', visaStatus = Mentioned, visaSnippet = None,
           jobType = str ''Full-time'', reason = str ''grading'', link = str ''l2'',
           source = str ''s'' \<rparr>"
  have t: "trim (str '' VIDEO '') = str ''VIDEO''"
    by (simp add: trim_def str_def isWhiteSpace_def)
  have k1: "includesStr (toLowerCaseASCII (title ?j1 @ [SP] @ company ?j1 @ [SP] @ reason ?j1))
      (toLowerCaseASCII (str ''VIDEO''))"
    by (simp add: toLowerCaseASCII_def str_def SP_def)
  have k2: "\<not> includesStr (toLowerCaseASCII (title ?j2 @ [SP] @ company ?j2 @ [SP] @ reason ?j2))
      (toLowerCaseASCII (str ''VIDEO''))"
    by (simp add: toLowerCaseASCII_def str_def SP_def)
  have ne: "str ''VIDEO'' \<noteq> []" by (simp add: str_def)
  have 1: "?j1 \<in> set (filteredJobs toLowerCaseASCII [?j1, ?j2]
       (str ''UK'') (str ''All'') AllStatuses (str '' VIDEO ''))"
    using filteredJobs_criteria [of toLowerCaseASCII "[?j1, ?j2]" "str ''UK''" "str ''All''"
        AllStatuses "str '' VIDEO ''" ?j1] t k1
    by simp
  have 2: "filteredJobs toLowerCaseASCII [?j1, ?j2]
       (str ''UK'') (str ''All'') AllStatuses (str '' VIDEO '') = [?j1]"
    using filteredJobs_criteria [of toLowerCaseASCII "[?j1, ?j2]" "str ''UK''" "str ''All''"
        AllStatuses "str '' VIDEO ''" ?j1] t k1 k2 ne
    by simp
  from 1 2 show ?thesis by (intro conjI)
qed

subsection \<open>Priority and secondary group\<close>

text \<open>
  C7. The priority group is the visible subset restricted to the jobs with visa
  status \<open>Mentioned\<close>, the secondary group is the visible subset restricted to the
  other jobs, both in the order of the visible subset; no job is in both groups,
  and every job of the visible subset is in one of them, as often as it occurs.
\<close>

theorem priority_partition:
  "priorityJobs visible = filter (\<lambda>job. visaStatus job = Mentioned) visible
   \<and> otherJobs visible = filter (\<lambda>job. visaStatus job = NotMentioned) visible
   \<and> set (priorityJobs visible) \<inter> set (otherJobs visible) = {}
   \<and> mset (priorityJobs visible) + mset (otherJobs visible) = mset visible
   \<and> length (priorityJobs visible) + length (otherJobs visible) = length visible"
proof -
  have ne: "(visaStatus job \<noteq> Mentioned) = (visaStatus job = NotMentioned)" for job :: Job
    by (cases "visaStatus job") simp_all
  have m: "mset (priorityJobs visible) + mset (otherJobs visible) = mset visible"
    by (simp add: priorityJobs_def otherJobs_def)
  have "length (priorityJobs visible) + length (otherJobs visible)
      = size (mset (priorityJobs visible) + mset (otherJobs visible))"
    by simp
  also have "\<dots> = length visible" by (simp only: m size_mset)
  finally have l: "length (priorityJobs visible) + length (otherJobs visible) = length visible" .
  have d: "set (priorityJobs visible) \<inter> set (otherJobs visible) = {}"
    by (auto simp: priorityJobs_def otherJobs_def)
  from m l d show ?thesis by (simp add: priorityJobs_def otherJobs_def ne)
qed

theorem priority_partition_witness:
  "priorityJobs
     [\<lparr> Job.title = str ''A'', company = str ''c'', country = str ''UK'',
         location = str ''x'', visaStatus = NotMentioned, visaSnippet = None,
         jobType = str ''t'', reason = str ''r'', link = str ''l1'', source = str ''s'' \<rparr>,
      \<lparr> Job.title = str ''B'', company = str ''c'', country = str ''UK'',
         location = str ''x'', visaStatus = Mentioned, visaSnippet = None,
         jobType = str ''t'', reason = str ''r'', link = str ''l2'', source = str ''s'' \<rparr>,
      \<lparr> Job.title = str ''C'', company = str ''c'', country = str ''UK'',
         location = str ''x'', visaStatus = Mentioned, visaSnippet = None,
         jobType = str ''t'', reason = str ''r'', link = str ''l3'', source = str ''s'' \<rparr>]
   = [\<lparr> Job.title = str ''B'', company = str ''c'', country = str ''UK'',
         location = str ''x'', visaStatus = Mentioned, visaSnippet = None,
         jobType = str ''t'', reason = str ''r'', link = str ''l2'', source = str ''s'' \<rparr>,
      \<lparr> Job.title = str ''C'', company = str ''c'', country = str ''UK'',
         location = str ''x'', visaStatus = Mentioned, visaSnippet = None,
         jobType = str ''t'', reason = str ''r'', link = str ''l3'', source = str ''s'' \<rparr>]"
  using priority_partition
    [of "[\<lparr> Job.title = str ''A'', company = str ''c'', country = str ''UK'',
         location = str ''x'', visaStatus = NotMentioned, visaSnippet = None,
         jobType = str ''t'', reason = str ''r'', link = str ''l1'', source = str ''s'' \<rparr>,
      \<lparr> Job.title = str ''B'', company = str ''c'', country = str ''UK'',
         location = str ''x'', visaStatus = Mentioned, visaSnippet = None,
         jobType = str ''t'', reason = str ''r'', link = str ''l2'', source = str ''s'' \<rparr>,
      \<lparr> Job.title = str ''C'', company = str ''c'', country = str ''UK'',
         location = str ''x'', visaStatus = Mentioned, visaSnippet = None,
         jobType = str ''t'', reason = str ''r'', link = str ''l3'', source = str ''s'' \<rparr>]"]
  by simp

subsection \<open>Counts\<close>

text \<open>
  C8. \<open>getJobStats\<close> returns the length of the list as \<open>total\<close>, the number of jobs
  with visa status \<open>Mentioned\<close> as \<open>visaMentioned\<close>, and \<open>total - visaMentioned\<close> as
  \<open>visaNotMentioned\<close>, so that the two counts add up to \<open>total\<close>.
\<close>

theorem getJobStats_counts:
  "total (getJobStats jobs) = int (length jobs)
   \<and> visaMentioned (getJobStats jobs)
       = int (length (filter (\<lambda>job. visaStatus job = Mentioned) jobs))
   \<and> visaNotMentioned (getJobStats jobs)
       = total (getJobStats jobs) - visaMentioned (getJobStats jobs)
   \<and> visaMentioned (getJobStats jobs) + visaNotMentioned (getJobStats jobs)
       = total (getJobStats jobs)
   \<and> visaNotMentioned (getJobStats jobs)
       = int (length (filter (\<lambda>job. visaStatus job = NotMentioned) jobs))"
proof -
  have ne: "(\<lambda>job :: Job. visaStatus job \<noteq> Mentioned) = (\<lambda>job. visaStatus job = NotMentioned)"
  proof (rule ext)
    fix job :: Job
    show "(visaStatus job \<noteq> Mentioned) = (visaStatus job = NotMentioned)"
      by (cases "visaStatus job") simp_all
  qed
  have "length (filter (\<lambda>job. visaStatus job = Mentioned) jobs)
      + length (filter (\<lambda>job. visaStatus job \<noteq> Mentioned) jobs) = length jobs"
    by (rule sum_length_filter_compl)
  then have "int (length jobs) - int (length (filter (\<lambda>job. visaStatus job = Mentioned) jobs))
      = int (length (filter (\<lambda>job. visaStatus job = NotMentioned) jobs))"
    unfolding ne by linarith
  then show ?thesis by (simp add: getJobStats_def Let_def)
qed

theorem getJobStats_counts_witness:
  "total (getJobStats
     [\<lparr> Job.title = str ''A'', company = str ''c'', country = str ''UK'',
         location = str ''x'', visaStatus = NotMentioned, visaSnippet = None,
         jobType = str ''t'', reason = str ''r'', link = str ''l1'', source = str ''s'' \<rparr>,
      \<lparr> Job.title = str ''B'', company = str ''c'', country = str ''UK'',
         location = str ''x'', visaStatus = Mentioned, visaSnippet = None,
         jobType = str ''t'', reason = str ''r'', link = str ''l2'', source = str ''s'' \<rparr>,
      \<lparr> Job.title = str ''C'', company = str ''c'', country = str ''UK'',
         location = str ''x'', visaStatus = Mentioned, visaSnippet = None,
         jobType = str ''t'', reason = str ''r'', link = str ''l3'', source = str ''s'' \<rparr>]) = 3
   \<and> visaMentioned (getJobStats
     [\<lparr> Job.title = str ''A'', company = str ''c'', country = str ''UK'',
         location = str ''x'', visaStatus = NotMentioned, visaSnippet = None,
         jobType = str ''t'', reason = str ''r'', link = str ''l1'', source = str ''s'' \<rparr>,
      \<lparr> Job.title = str ''B'', company = str ''c'', country = str ''UK'',
         location = str ''x'', visaStatus = Mentioned, visaSnippet = None,
         jobType = str ''t'', reason = str ''r'', link = str ''l2'', source = str ''s'' \<rparr>,
      \<lparr> Job.title = str ''C'', company = str ''c'', country = str ''UK'',
         location = str ''x'', visaStatus = Mentioned, visaSnippet = None,
         jobType = str ''t'', reason = str ''r'', link = str ''l3'', source = str ''s'' \<rparr>]) = 2
   \<and> visaNotMentioned (getJobStats
     [\<lparr> Job.title = str ''A'', company = str ''c'', country = str ''UK'',
         location = str ''x'', visaStatus = NotMentioned, visaSnippet = None,
         jobType = str ''t'', reason = str ''r'', link = str ''l1'', source = str ''s'' \<rparr>,
      \<lparr> Job.title = str ''B'', company = str ''c'', country = str ''UK'',
         location = str ''x'', visaStatus = Mentioned, visaSnippet = None,
         jobType = str ''t'', reason = str ''r'', link = str ''l2'', source = str ''s'' \<rparr>,
      \<lparr> Job.title = str ''C'', company = str ''c'', country = str ''UK'',
         location = str ''x'', visaStatus = Mentioned, visaSnippet = None,
         jobType = str ''t'', reason = str ''r'', link = str ''l3'', source = str ''s'' \<rparr>]) = 1"
  using getJobStats_counts
    [of "[\<lparr> Job.title = str ''A'', company = str ''c'', country = str ''UK'',
         location = str ''x'', visaStatus = NotMentioned, visaSnippet = None,
         jobType = str ''t'', reason = str ''r'', link = str ''l1'', source = str ''s'' \<rparr>,
      \<lparr> Job.title = str ''B'', company = str ''c'', country = str ''UK'',
         location = str ''x'', visaStatus = Mentioned, visaSnippet = None,
         jobType = str ''t'', reason = str ''r'', link = str ''l2'', source = str ''s'' \<rparr>,
      \<lparr> Job.title = str ''C'', company = str ''c'', country = str ''UK'',
         location = str ''x'', visaStatus = Mentioned, visaSnippet = None,
         jobType = str ''t'', reason = str ''r'', link = str ''l3'', source = str ''s'' \<rparr>]"]
  by simp

subsection \<open>Countries and job types\<close>

text \<open>
  C9. The sequences \<open>countries\<close> and \<open>jobTypes\<close> of \<open>getJobStats\<close> have no
  duplicates, are sorted ascending in the order of strings by code units, and
  hold exactly the country values, respectively the job-type values, of the list.
\<close>

theorem getJobStats_dimensions:
  "distinct (countries (getJobStats jobs))
   \<and> sorted (countries (getJobStats jobs))
   \<and> set (countries (getJobStats jobs)) = country ` set jobs
   \<and> distinct (jobTypes (getJobStats jobs))
   \<and> sorted (jobTypes (getJobStats jobs))
   \<and> set (jobTypes (getJobStats jobs)) = jobType ` set jobs"
  by (simp add: getJobStats_def Let_def distinct_setValues set_setValues)

theorem getJobStats_dimensions_witness:
  "countries (getJobStats
     [\<lparr> Job.title = str ''A'', company = str ''c'', country = str ''UK'',
         location = str ''x'', visaStatus = NotMentioned, visaSnippet = None,
         jobType = str ''Full-time'', reason = str ''r'', link = str ''l1'',
         source = str ''s'' \<rparr>,
      \<lparr> Job.title = str ''B'', company = str ''c'', country = str ''Canada'',
         location = str ''x'', visaStatus = Mentioned, visaSnippet = None,
         jobType = str ''Contract'', reason = str ''r'', link = str ''l2'',
         source = str ''s'' \<rparr>,
      \<lparr> Job.title = str ''C'', company = str ''c'', country = str ''UK'',
         location = str ''x'', visaStatus = Mentioned, visaSnippet = None,
         jobType = str ''Full-time'', reason = str ''r'', link = str ''l3'',
         source = str ''s'' \<rparr>]) = [str ''Canada'', str ''UK'']
   \<and> sorted [str ''Canada'', str ''UK'']"
proof -
  let ?jobs = "[\<lparr> Job.title = str ''A'', company = str ''c'', country = str ''UK'',
         location = str ''x'', visaStatus = NotMentioned, visaSnippet = None,
         jobType = str ''Full-time'', reason = str ''r'', link = str ''l1'',
         source = str ''s'' \<rparr>,
      \<lparr> Job.title = str ''B'', company = str ''c'', country = str ''Canada'',
         location = str ''x'', visaStatus = Mentioned, visaSnippet = None,
         jobType = str ''Contract'', reason = str ''r'', link = str ''l2'',
         source = str ''s'' \<rparr>,
      \<lparr> Job.title = str ''C'', company = str ''c'', country = str ''UK'',
         location = str ''x'', visaStatus = Mentioned, visaSnippet = None,
         jobType = str ''Full-time'', reason = str ''r'', link = str ''l3'',
         source = str ''s'' \<rparr>]"
  have run: "countries (getJobStats ?jobs) = [str ''Canada'', str ''UK'']"
    by (simp add: getJobStats_def Let_def setValues_def str_def)
  from getJobStats_dimensions [of ?jobs] have "sorted (countries (getJobStats ?jobs))"
    by blast
  with run show ?thesis by (simp only:)
qed

subsection \<open>Length of the result\<close>

text \<open>
  C10. Every string that \<open>cleanSnippet\<close> returns has at most 220 code units, the
  ellipsis included; when the text was truncated (the collapsed text had more than
  220 code units) it has at most 218.
\<close>

theorem cleanSnippet_length_bound:
  "cleanSnippet (Some s) = Some r \<Longrightarrow>
     length r \<le> 220 \<and> (220 < length (collapsedText s) \<longrightarrow> length r \<le> 218)"
proof -
  assume a: "cleanSnippet (Some s) = Some r"
  have t: "length (trim (take 217 (collapsedText s))) \<le> 217"
    using length_trim_le [of "take 217 (collapsedText s)"] by simp
  from a show ?thesis
  proof (cases rule: cleanSnippet_cases)
    case (1 s')
    with t show ?thesis by simp
  next
    case (2 s')
    then show ?thesis by simp
  qed
qed

theorem cleanSnippet_length_bound_witness:
  "cleanSnippet (Some (replicate 300 0x61)) = Some (replicate 217 0x61 @ [ELLIPSIS])
   \<and> 220 < length (collapsedText (replicate 300 0x61))
   \<and> length (replicate 217 (0x61 :: cu) @ [ELLIPSIS]) \<le> 218"
proof -
  let ?s = "replicate 300 (0x61 :: cu)"
  have p: "\<forall>c \<in> set ?s. c \<noteq> LT \<and> c \<noteq> AMP \<and> \<not> isWhiteSpace c"
    by (simp add: LT_def AMP_def isWhiteSpace_def)
  have "cleanSnippet (Some ?s) = Some (take 217 ?s @ [ELLIPSIS])"
    by (rule plain_truncated) (use p in simp_all)
  then have h: "cleanSnippet (Some ?s) = Some (replicate 217 0x61 @ [ELLIPSIS])" by simp
  have "collapsedText ?s = ?s" by (rule plain_collapsedText) (use p in simp_all)
  then have l: "220 < length (collapsedText ?s)" by simp
  from cleanSnippet_length_bound [OF h] l
  have "length (replicate 217 (0x61 :: cu) @ [ELLIPSIS]) \<le> 218" by blast
  with h l show ?thesis by (intro conjI)
qed

end
